theory Spec2Isabelle
  imports Complex_Main "HOL-Library.Sublist" "HOL-Library.AList"
begin

section \<open>Python values used by the script\<close>

text \<open>
  The script \<^verbatim>\<open>mnistr.py\<close> is an orchestration script over torch, torchvision and
  robustbench. Python exceptions are values of \<open>exn\<close>; a computation that may raise
  returns \<open>exn + 'a\<close> with \<open>Inl\<close> for the exception. Python floats are modelled as reals,
  a decimal literal denoting its decimal value.
\<close>

datatype exn =
    NotImplementedError
  | UnboundLocalError
  | RuntimeError
  | KeyError

text \<open>
  The slice \<^verbatim>\<open>t[:n]\<close>: a non-negative \<open>n\<close> keeps the first \<open>n\<close> entries (all of them when
  there are fewer), a negative \<open>n\<close> drops the last \<open>-n\<close> entries.
\<close>

definition py_slice_to :: "int \<Rightarrow> 'a list \<Rightarrow> 'a list" where
  "py_slice_to n t =
     (if 0 \<le> n then take (nat n) t else take (length t - nat (- n)) t)"

text \<open>
  \<^verbatim>\<open>torch.cat\<close> of a Python list of batch tensors along dimension 0: the batches one
  after the other; it raises on an empty list.
\<close>

definition torch_cat :: "'a list list \<Rightarrow> exn + 'a list" where
  "torch_cat tensors = (if tensors = [] then Inl RuntimeError else Inr (concat tensors))"

section \<open>The transform pipeline\<close>

text \<open>
  The functions of torchvision and the test split on disk are parameters: \<open>'v\<close> is the
  type of image values (PIL image or tensor), \<open>'l\<close> the type of labels. \<open>randperm\<close> is
  the random permutation a shuffling sampler would draw from the global generator.
\<close>

record ('v, 'l) vision =
  ToTensor :: "'v \<Rightarrow> 'v"
  Normalize :: "real list \<Rightarrow> real list \<Rightarrow> 'v \<Rightarrow> 'v"
  TF_rotate :: "'v \<Rightarrow> int \<Rightarrow> 'v"
  MNIST_test :: "('v \<times> 'l) list"
  randperm :: "nat \<Rightarrow> nat list"

datatype RotationTransform = RotationTransform (self_angle: int)

definition RotationTransform_call :: "('v, 'l) vision \<Rightarrow> RotationTransform \<Rightarrow> 'v \<Rightarrow> 'v" where
  "RotationTransform_call V self x = TF_rotate V x (self_angle self)"

datatype transform =
    ToTensor_t
  | Normalize_t "real list" "real list"
  | Rotation_t RotationTransform

fun transform_call :: "('v, 'l) vision \<Rightarrow> transform \<Rightarrow> 'v \<Rightarrow> 'v" where
  "transform_call V ToTensor_t x = ToTensor V x"
| "transform_call V (Normalize_t mean std) x = Normalize V mean std x"
| "transform_call V (Rotation_t r) x = RotationTransform_call V r x"

text \<open>\<^verbatim>\<open>transforms.Compose(ts)(img)\<close>: \<^verbatim>\<open>for t in ts: img = t(img)\<close>.\<close>

definition Compose_call :: "('v, 'l) vision \<Rightarrow> transform list \<Rightarrow> 'v \<Rightarrow> 'v" where
  "Compose_call V ts img = fold (transform_call V) ts img"

section \<open>Dataset and loader\<close>

text \<open>
  \<^verbatim>\<open>datasets.MNIST(train=False, transform=transform)\<close>: item \<open>i\<close> is the \<open>i\<close>-th raw image of
  the test split with the transform applied, and its label.
\<close>

definition MNIST :: "('v, 'l) vision \<Rightarrow> transform list \<Rightarrow> ('v \<times> 'l) list" where
  "MNIST V tf = map (\<lambda>(img, target). (Compose_call V tf img, target)) (MNIST_test V)"

function batches :: "nat \<Rightarrow> 'a list \<Rightarrow> 'a list list" where
  "batches n xs =
     (if n = 0 \<or> xs = [] then [] else take n xs # batches n (drop n xs))"
  by pat_completeness auto
termination
  by (relation "measure (\<lambda>(n, xs). length xs)") auto

declare batches.simps [simp del]

definition collate :: "('v \<times> 'l) list \<Rightarrow> 'v list \<times> 'l list" where
  "collate b = (map fst b, map snd b)"

text \<open>
  \<^verbatim>\<open>DataLoader(dataset, batch_size, shuffle, num_workers=0)\<close> as the list of batches it
  yields: the items in dataset order, or in the order of a drawn permutation when
  \<open>shuffle\<close> is set, cut into batches of \<open>batch_size\<close> (the last one may be shorter).
\<close>

definition DataLoader ::
  "('v, 'l) vision \<Rightarrow> ('v \<times> 'l) list \<Rightarrow> nat \<Rightarrow> bool \<Rightarrow> ('v list \<times> 'l list) list" where
  "DataLoader V dataset batch_size shuffle =
     map collate
       (batches batch_size
          (if shuffle then map (\<lambda>i. dataset ! i) (randperm V (length dataset))
           else dataset))"

text \<open>
  The loop of \<^verbatim>\<open>load_cifar_r\<close> over \<^verbatim>\<open>enumerate(test_loader)\<close>: the batch is appended
  first, the cap is tested afterwards.
\<close>

fun accumulate ::
  "int option \<Rightarrow> nat \<Rightarrow> nat \<Rightarrow> ('v list \<times> 'l list) list \<Rightarrow>
   'v list list \<times> 'l list list \<Rightarrow> 'v list list \<times> 'l list list" where
  "accumulate n_examples batch_size i [] (x_test, y_test) = (x_test, y_test)"
| "accumulate n_examples batch_size i ((x, y) # rest) (x_test, y_test) =
     (if (case n_examples of None \<Rightarrow> False | Some n \<Rightarrow> int batch_size * int i \<ge> n)
      then (x_test @ [x], y_test @ [y])
      else accumulate n_examples batch_size (Suc i) rest (x_test @ [x], y_test @ [y]))"

definition transform_of :: "int \<Rightarrow> transform list" where
  "transform_of rotation =
     [ToTensor_t,
      Normalize_t [1307 / 10000] [3081 / 10000],
      Rotation_t (RotationTransform rotation)]"

definition accumulated ::
  "('v, 'l) vision \<Rightarrow> int \<Rightarrow> int option \<Rightarrow> 'v list list \<times> 'l list list" where
  "accumulated V rotation n_examples =
     (let dataset = MNIST V (transform_of rotation);
          batch_size = 100;
          test_loader = DataLoader V dataset batch_size False
      in accumulate n_examples batch_size 0 test_loader ([], []))"

definition load_cifar_r ::
  "('v, 'l) vision \<Rightarrow> int \<Rightarrow> int option \<Rightarrow> exn + ('v list \<times> 'l list)" where
  "load_cifar_r V rotation n_examples =
     (case accumulated V rotation n_examples of (x_test, y_test) \<Rightarrow>
        (case torch_cat x_test of
           Inl e \<Rightarrow> Inl e
         | Inr x_test_tensor \<Rightarrow>
             (case torch_cat y_test of
                Inl e \<Rightarrow> Inl e
              | Inr y_test_tensor \<Rightarrow>
                  (case n_examples of
                     None \<Rightarrow> Inr (x_test_tensor, y_test_tensor)
                   | Some n \<Rightarrow>
                       Inr (py_slice_to n x_test_tensor, py_slice_to n y_test_tensor)))))"

section \<open>Rewriting the checkpoint keys\<close>

text \<open>
  \<^verbatim>\<open>s.replace(old, new)\<close>: every occurrence of \<open>old\<close> found scanning from the left, the
  search resuming after each occurrence, is replaced by \<open>new\<close>. An empty \<open>old\<close> matches
  before every character and at the end.
\<close>

function str_replace :: "string \<Rightarrow> string \<Rightarrow> string \<Rightarrow> string" where
  "str_replace old new s =
     (if old = [] then new @ concat (map (\<lambda>c. c # new) s)
      else if s = [] then []
      else if prefix old s then new @ str_replace old new (drop (length old) s)
      else hd s # str_replace old new (tl s))"
  by pat_completeness auto
termination
  by (relation "measure (\<lambda>(old, new, s). length s)") auto

declare str_replace.simps [simp del]

text \<open>\<^verbatim>\<open>new_key = key.replace("module.", "")\<close>\<close>

definition new_key :: "string \<Rightarrow> string" where
  "new_key key = str_replace ''module.'' [] key"

text \<open>
  The state dict is an insertion-ordered dictionary: a list of pairs with distinct keys.
  \<^verbatim>\<open>d.pop(key)\<close> raises on a missing key and otherwise removes the entry and returns
  its value; \<^verbatim>\<open>d[k] = v\<close> overwrites in place or appends.
\<close>

type_synonym ('k, 'v) dict = "('k \<times> 'v) list"

definition dict_pop :: "('k, 'v) dict \<Rightarrow> 'k \<Rightarrow> exn + ('v \<times> ('k, 'v) dict)" where
  "dict_pop d key =
     (case map_of d key of
        None \<Rightarrow> Inl KeyError
      | Some v \<Rightarrow> Inr (v, AList.delete key d))"

definition dict_setitem :: "('k, 'v) dict \<Rightarrow> 'k \<Rightarrow> 'v \<Rightarrow> ('k, 'v) dict" where
  "dict_setitem d k v = AList.update k v d"

text \<open>
  \<^verbatim>\<open>for key in list(state_dict.keys()): state_dict[new_key] = state_dict.pop(key)\<close>:
  the keys are a snapshot taken before the loop; the right-hand side is evaluated first.
\<close>

fun rewrite_loop :: "string list \<Rightarrow> (string, 'w) dict \<Rightarrow> exn + (string, 'w) dict" where
  "rewrite_loop [] state_dict = Inr state_dict"
| "rewrite_loop (key # keys) state_dict =
     (case dict_pop state_dict key of
        Inl e \<Rightarrow> Inl e
      | Inr (v, popped) \<Rightarrow> rewrite_loop keys (dict_setitem popped (new_key key) v))"

definition rewrite_keys :: "(string, 'w) dict \<Rightarrow> exn + (string, 'w) dict" where
  "rewrite_keys state_dict = rewrite_loop (map fst state_dict) state_dict"


section \<open>Configuration and optimizer\<close>

text \<open>
  The fields of the global \<^verbatim>\<open>cfg\<close> that the script reads, as they stand after
  \<^verbatim>\<open>load_cfg_fom_args\<close>.
\<close>

record cfg =
  MODEL_ADAPTATION :: string
  MODEL_EVOLVE :: bool
  MODEL_EPISODIC :: bool
  OPTIM_METHOD :: string
  OPTIM_LR :: real
  OPTIM_BETA :: real
  OPTIM_WD :: real
  OPTIM_MOMENTUM :: real
  OPTIM_DAMPENING :: real
  OPTIM_NESTEROV :: bool
  OPTIM_STEPS :: int
  TEST_BATCH_SIZE :: int

text \<open>
  The two optimizer constructors with the arguments the script passes:
  \<open>Adam params lr betas weight_decay\<close> and
  \<open>SGD params lr momentum dampening weight_decay nesterov\<close>.
\<close>

datatype 'p optimizer =
    Adam 'p real "real \<times> real" real
  | SGD 'p real real real real bool

definition setup_optimizer :: "cfg \<Rightarrow> 'p \<Rightarrow> exn + 'p optimizer" where
  "setup_optimizer c params =
     (if OPTIM_METHOD c = ''Adam'' then
        Inr (Adam params (OPTIM_LR c) (OPTIM_BETA c, 999 / 1000) (OPTIM_WD c))
      else if OPTIM_METHOD c = ''SGD'' then
        Inr (SGD params (OPTIM_LR c) (OPTIM_MOMENTUM c) (OPTIM_DAMPENING c) (OPTIM_WD c)
               (OPTIM_NESTEROV c))
      else Inl NotImplementedError)"

section \<open>The evaluation driver\<close>

text \<open>
  The collaborators of the driver are parameters: \<open>'m\<close> is the type of module states
  (the network with whatever adaptation state a wrapper keeps), \<open>'w\<close> of weight tensors,
  \<open>'p\<close> of parameter collections. \<open>LeNet5\<close> is the freshly constructed network on the
  device, \<open>torch_load_net\<close> the entry \<^verbatim>\<open>'net'\<close> of the checkpoint that \<^verbatim>\<open>torch.load\<close> read
  (reading the file is taken to succeed), \<open>load_state_dict\<close> returns the network with
  the weights loaded or the exception it raises. \<open>model_reset\<close> is \<^verbatim>\<open>model.reset()\<close>,
  \<open>None\<close> when it raises, whatever the exception; \<open>accuracy\<close> returns the accuracy and
  the module state the forward passes leave, and is taken not to raise. Moving a tensor
  or a module to the device (\<^verbatim>\<open>.cuda()\<close>) changes no value and is not written.
\<close>

record ('v, 'l, 'w, 'm, 'p) torch =
  LeNet5 :: "'m"
  torch_load_net :: "(string, 'w) dict"
  load_state_dict :: "'m \<Rightarrow> (string, 'w) dict \<Rightarrow> exn + 'm"
  module_eval :: "'m \<Rightarrow> 'm"
  norm_Norm :: "'m \<Rightarrow> 'm"
  norm_collect_stats :: "'m \<Rightarrow> string list"
  tent_configure_model :: "'m \<Rightarrow> 'm"
  tent_collect_params :: "'m \<Rightarrow> 'p \<times> string list"
  tent_Tent :: "'m \<Rightarrow> 'p optimizer \<Rightarrow> int \<Rightarrow> bool \<Rightarrow> 'm"
  model_reset :: "'m \<Rightarrow> 'm option"
  accuracy :: "'m \<Rightarrow> 'v list \<Rightarrow> 'l list \<Rightarrow> int \<Rightarrow> real \<times> 'm"

text \<open>
  What a run does to the outside, in order: lines printed and logged (format strings
  stand for the formatted lines), and the calls of \<^verbatim>\<open>model.reset\<close>, \<^verbatim>\<open>load_cifar_r\<close>
  and \<^verbatim>\<open>accuracy\<close>. \<open>Reset m\<close>: reset was called on state \<open>m\<close>. \<open>Accuracy m b acc m'\<close>:
  accuracy was called on state \<open>m\<close> with batch size \<open>b\<close>, returned \<open>acc\<close> and left state
  \<open>m'\<close>. \<open>Error_pct angle err\<close> is the line \<^verbatim>\<open>error % [angle]: err\<close>.
\<close>

datatype 'm event =
    Print string
  | Info string
  | Warning string
  | Error_pct int real
  | Reset 'm
  | Load int "int option"
  | Accuracy 'm int real 'm

definition setup_source ::
  "('v, 'l, 'w, 'm, 'p) torch \<Rightarrow> 'm \<Rightarrow> 'm event list \<Rightarrow> 'm \<times> 'm event list" where
  "setup_source T model tr =
     (module_eval T model, tr @ [Info ''model for evaluation: %s''])"

definition setup_norm ::
  "('v, 'l, 'w, 'm, 'p) torch \<Rightarrow> 'm \<Rightarrow> 'm event list \<Rightarrow> 'm \<times> 'm event list" where
  "setup_norm T model tr =
     (let norm_model = norm_Norm T model;
          stat_names = norm_collect_stats T model
      in (norm_model,
          tr @ [Info ''model for adaptation: %s'', Info ''stats for adaptation: %s'']))"

definition setup_tent ::
  "('v, 'l, 'w, 'm, 'p) torch \<Rightarrow> cfg \<Rightarrow> 'm \<Rightarrow> 'm event list \<Rightarrow>
   (exn + 'm) \<times> 'm event list" where
  "setup_tent T c model tr =
     (let model = tent_configure_model T model;
          (params, param_names) = tent_collect_params T model
      in case setup_optimizer c params of
           Inl e \<Rightarrow> (Inl e, tr)
         | Inr optimizer \<Rightarrow>
             (Inr (tent_Tent T model optimizer (OPTIM_STEPS c) (MODEL_EPISODIC c)),
              tr @ [Info ''model for adaptation: %s'',
                    Info ''params for adaptation: %s'',
                    Info ''optimizer for adaptation: %s'']))"

text \<open>
  The three tests on \<^verbatim>\<open>cfg.MODEL.ADAPTATION\<close>, one after the other with no
  \<^verbatim>\<open>else\<close>. The local variable \<^verbatim>\<open>model\<close> is \<open>None\<close> while it is unbound.
\<close>

definition select_model ::
  "('v, 'l, 'w, 'm, 'p) torch \<Rightarrow> cfg \<Rightarrow> 'm \<Rightarrow> 'm event list \<Rightarrow>
   (exn + 'm option) \<times> 'm event list" where
  "select_model T c base_model tr =
     (let (model, tr) =
            (if MODEL_ADAPTATION c = ''source'' then
               (case setup_source T base_model (tr @ [Info ''test-time adaptation: NONE'']) of
                  (m, tr') \<Rightarrow> (Some m, tr'))
             else (None, tr));
          (model, tr) =
            (if MODEL_ADAPTATION c = ''norm'' then
               (case setup_norm T base_model (tr @ [Info ''test-time adaptation: NORM'']) of
                  (m, tr') \<Rightarrow> (Some m, tr'))
             else (model, tr))
      in if MODEL_ADAPTATION c = ''tent'' then
           (case setup_tent T c base_model (tr @ [Info ''test-time adaptation: TENT'']) of
              (Inl e, tr') \<Rightarrow> (Inl e, tr')
            | (Inr m, tr') \<Rightarrow> (Inr (Some m), tr'))
         else (Inr model, tr))"

text \<open>
  \<^verbatim>\<open>try: model.reset(); logger.info(...)  except: logger.warning(...)\<close>. The bare
  \<^verbatim>\<open>except\<close> catches every exception, also the one that reading an unbound
  \<^verbatim>\<open>model\<close> raises.
\<close>

definition try_reset ::
  "('v, 'l, 'w, 'm, 'p) torch \<Rightarrow> 'm option \<Rightarrow> 'm event list \<Rightarrow> 'm option \<times> 'm event list" where
  "try_reset T model tr =
     (case model of
        None \<Rightarrow> (None, tr @ [Warning ''not resetting model''])
      | Some m \<Rightarrow>
          (case model_reset T m of
             None \<Rightarrow> (Some m, tr @ [Reset m, Warning ''not resetting model''])
           | Some m' \<Rightarrow> (Some m', tr @ [Reset m, Info ''resetting model''])))"

text \<open>One iteration of the loop over the angles.\<close>

definition angle_step ::
  "('v, 'l) vision \<Rightarrow> ('v, 'l, 'w, 'm, 'p) torch \<Rightarrow> cfg \<Rightarrow> int \<Rightarrow> 'm option \<Rightarrow>
   'm event list \<Rightarrow> (exn + 'm option) \<times> 'm event list" where
  "angle_step V T c angle model tr =
     (let (model, tr) = (if \<not> MODEL_EVOLVE c then try_reset T model tr else (model, tr));
          tr = tr @ [Load angle None]
      in case load_cifar_r V angle None of
           Inl e \<Rightarrow> (Inl e, tr)
         | Inr (x_test, y_test) \<Rightarrow>
             (case model of
                None \<Rightarrow> (Inl UnboundLocalError, tr)
              | Some m \<Rightarrow>
                  (case accuracy T m x_test y_test (TEST_BATCH_SIZE c) of
                     (acc, m') \<Rightarrow>
                       (let err = 1 - acc
                        in (Inr (Some m'),
                            tr @ [Accuracy m (TEST_BATCH_SIZE c) acc m',
                                  Error_pct angle err])))))"

fun sweep ::
  "('v, 'l) vision \<Rightarrow> ('v, 'l, 'w, 'm, 'p) torch \<Rightarrow> cfg \<Rightarrow> int list \<Rightarrow> 'm option \<Rightarrow>
   'm event list \<Rightarrow> (exn + unit) \<times> 'm event list" where
  "sweep V T c [] model tr = (Inr (), tr)"
| "sweep V T c (angle # angles) model tr =
     (case angle_step V T c angle model tr of
        (Inl e, tr') \<Rightarrow> (Inl e, tr')
      | (Inr model', tr') \<Rightarrow> sweep V T c angles model' tr')"

text \<open>\<^verbatim>\<open>range(start, stop, step)\<close> as a list; a zero step raises in Python and is not used.\<close>

definition py_range :: "int \<Rightarrow> int \<Rightarrow> int \<Rightarrow> int list" where
  "py_range start stop step =
     (if 0 < step then
        map (\<lambda>k. start + step * int k) [0..<nat ((stop - start + step - 1) div step)]
      else if step < 0 then
        map (\<lambda>k. start + step * int k) [0..<nat ((start - stop - step - 1) div (- step))]
      else [])"

definition evaluate ::
  "('v, 'l) vision \<Rightarrow> ('v, 'l, 'w, 'm, 'p) torch \<Rightarrow> cfg \<Rightarrow> (exn + unit) \<times> 'm event list" where
  "evaluate V T c =
     (let base_model = LeNet5 T;
          tr = [Print ''==> Loading from checkpoint..'']
      in case rewrite_keys (torch_load_net T) of
           Inl e \<Rightarrow> (Inl e, tr)
         | Inr state_dict \<Rightarrow>
             (case load_state_dict T base_model state_dict of
                Inl e \<Rightarrow> (Inl e, tr)
              | Inr base_model \<Rightarrow>
                  (case select_model T c base_model tr of
                     (Inl e, tr) \<Rightarrow> (Inl e, tr)
                   | (Inr model, tr) \<Rightarrow> sweep V T c (py_range 0 181 10) model tr)))"


section \<open>Reading a trace\<close>


fun is_reset_event :: "'m event \<Rightarrow> bool" where
  "is_reset_event (Reset m) = True"
| "is_reset_event (Info s) = (s = ''resetting model'')"
| "is_reset_event (Warning s) = (s = ''not resetting model'')"
| "is_reset_event _ = False"

fun is_reset_or_load :: "'m event \<Rightarrow> bool" where
  "is_reset_or_load (Reset m) = True"
| "is_reset_or_load (Load a n) = True"
| "is_reset_or_load _ = False"

fun is_setup_event :: "'m event \<Rightarrow> bool" where
  "is_setup_event (Print s) = True"
| "is_setup_event (Info s) = True"
| "is_setup_event _ = False"

fun is_accuracy :: "'m event \<Rightarrow> bool" where
  "is_accuracy (Accuracy m b acc m') = True"
| "is_accuracy _ = False"

text \<open>
  \<open>threaded m tr\<close>: every accuracy call in \<open>tr\<close> runs on the state the previous accuracy
  call left, the first one on \<open>m\<close>. Nothing between two accuracy calls changed the state.
\<close>

fun threaded :: "'m \<Rightarrow> 'm event list \<Rightarrow> bool" where
  "threaded m [] = True"
| "threaded m (Accuracy m1 b acc m2 # tr) = (m1 = m \<and> threaded m2 tr)"
| "threaded m (e # tr) = threaded m tr"

text \<open>
  The events of one iteration, given the state \<open>m0\<close> the iteration starts with, the state
  \<open>m1\<close> the accuracy call runs on, the accuracy and the state \<open>m2\<close> left behind; the state
  an iteration that starts with \<open>m\<close> passes to the accuracy call; and the condition that
  ties a list of such iterations to the collaborators.
\<close>

definition step_events ::
  "('v, 'l, 'w, 'm, 'p) torch \<Rightarrow> cfg \<Rightarrow> int \<times> 'm \<times> 'm \<times> real \<times> 'm \<Rightarrow> 'm event list" where
  "step_events T c s =
     (case s of (a, m0, m1, acc, m2) \<Rightarrow>
        (if MODEL_EVOLVE c then []
         else [Reset m0,
               if model_reset T m0 = None then Warning ''not resetting model''
               else Info ''resetting model'']) @
        [Load a None, Accuracy m1 (TEST_BATCH_SIZE c) acc m2, Error_pct a (1 - acc)])"

definition after_reset :: "('v, 'l, 'w, 'm, 'p) torch \<Rightarrow> cfg \<Rightarrow> 'm \<Rightarrow> 'm" where
  "after_reset T c m =
     (if MODEL_EVOLVE c then m
      else case model_reset T m of None \<Rightarrow> m | Some m' \<Rightarrow> m')"

fun linked ::
  "('v, 'l) vision \<Rightarrow> ('v, 'l, 'w, 'm, 'p) torch \<Rightarrow> cfg \<Rightarrow> 'm \<Rightarrow>
   (int \<times> 'm \<times> 'm \<times> real \<times> 'm) list \<Rightarrow> bool" where
  "linked V T c m [] = True"
| "linked V T c m ((a, m0, m1, acc, m2) # rest) =
     (m0 = m \<and>
      m1 = after_reset T c m0 \<and>
      (\<exists>x y. load_cifar_r V a None = Inr (x, y) \<and>
             accuracy T m1 x y (TEST_BATCH_SIZE c) = (acc, m2)) \<and>
      linked V T c m2 rest)"


section \<open>Concrete inputs\<close>

text \<open>
  A small instance of the library parameters, used to run the definitions: images are
  integers, the split holds \<open>k\<close> examples with labels \<open>i mod 10\<close>.
\<close>

definition toy_vision :: "nat \<Rightarrow> (int, nat) vision" where
  "toy_vision k =
     \<lparr>ToTensor = (\<lambda>x. x),
      Normalize = (\<lambda>mean std x. x + 1),
      TF_rotate = (\<lambda>x a. 2 * x + a),
      MNIST_test = map (\<lambda>i. (int i, i mod 10)) [0..<k],
      randperm = (\<lambda>n. rev [0..<n])\<rparr>"


text \<open>
  A small instance of the driver's collaborators: a module state is an integer, every
  forward pass of \<open>accuracy\<close> adds one to it and the accuracy is \<open>3 / 4\<close>; wrapping adds
  1000 or 2000; \<open>reset\<close>, where supported, goes back to the thousands.
\<close>

definition toy_torch :: "bool \<Rightarrow> (int, nat, nat, int, string list) torch" where
  "toy_torch resets =
     \<lparr>LeNet5 = 0,
      torch_load_net = [(''module.fc.weight'', 1), (''module.fc.bias'', 2)],
      load_state_dict = (\<lambda>m sd.
         if map fst sd = [''fc.weight'', ''fc.bias''] then Inr m else Inl RuntimeError),
      module_eval = (\<lambda>m. m),
      norm_Norm = (\<lambda>m. m + 1000),
      norm_collect_stats = (\<lambda>m. [''bn'']),
      tent_configure_model = (\<lambda>m. m),
      tent_collect_params = (\<lambda>m. ([''bn.weight''], [''bn.weight''])),
      tent_Tent = (\<lambda>m opt steps episodic. m + 2000),
      model_reset = (\<lambda>m. if resets then Some (m div 1000 * 1000) else None),
      accuracy = (\<lambda>m x y b. (3 / 4, m + 1))\<rparr>"

definition toy_cfg :: "string \<Rightarrow> bool \<Rightarrow> string \<Rightarrow> cfg" where
  "toy_cfg adaptation evolve method =
     \<lparr>MODEL_ADAPTATION = adaptation,
      MODEL_EVOLVE = evolve,
      MODEL_EPISODIC = False,
      OPTIM_METHOD = method,
      OPTIM_LR = 1 / 1000,
      OPTIM_BETA = 9 / 10,
      OPTIM_WD = 0,
      OPTIM_MOMENTUM = 9 / 10,
      OPTIM_DAMPENING = 0,
      OPTIM_NESTEROV = True,
      OPTIM_STEPS = 1,
      TEST_BATCH_SIZE = 200\<rparr>"

text \<open>
  An instance with pixels: an image is a row of real pixel values, the normalization
  subtracts the mean and divides by the standard deviation pixel by pixel, a rotation by
  0 leaves the row as it is, a rotation by 180 reverses it, and any other angle moves
  every pixel out of the frame and fills with 0.
\<close>

definition pixel_vision :: "(real list, nat) vision" where
  "pixel_vision =
     \<lparr>ToTensor = (\<lambda>x. x),
      Normalize = (\<lambda>mean std x. map (\<lambda>p. (p - hd mean) / hd std) x),
      TF_rotate = (\<lambda>x a. if a = 0 then x else if a = 180 then rev x else map (\<lambda>p. 0) x),
      MNIST_test = [([0, 1], 7)],
      randperm = (\<lambda>n. [0..<n])\<rparr>"

section \<open>Facts about batching and accumulation\<close>

lemma concat_batches: "0 < n \<Longrightarrow> concat (batches n xs) = xs"
proof (induction n xs rule: batches.induct)
  case (1 n xs)
  then show ?case by (subst batches.simps) auto
qed

lemma concat_take_batches: "0 < n \<Longrightarrow> concat (take j (batches n xs)) = take (j * n) xs"
proof (induction n xs arbitrary: j rule: batches.induct)
  case (1 n xs)
  show ?case
  proof (cases "xs = []")
    case True
    then show ?thesis by (subst batches.simps) simp
  next
    case False
    show ?thesis
    proof (cases j)
      case 0
      then show ?thesis by simp
    next
      case (Suc k)
      have "concat (take j (batches n xs)) = take n xs @ concat (take k (batches n (drop n xs)))"
        using False 1(2) Suc by (subst batches.simps) simp
      also have "\<dots> = take n xs @ take (k * n) (drop n xs)"
        using 1 False by simp
      also have "\<dots> = take (j * n) xs"
        using Suc by (simp add: take_add add.commute)
      finally show ?thesis .
    qed
  qed
qed

lemma batches_nonempty: "0 < n \<Longrightarrow> xs \<noteq> [] \<Longrightarrow> batches n xs \<noteq> []"
  by (subst batches.simps) simp

lemma accumulate_None:
  "accumulate None b i bs (xt, yt) = (xt @ map fst bs, yt @ map snd bs)"
  by (induction bs arbitrary: i xt yt) auto

lemma stop_index_iff: "m \<le> 100 * int i \<longleftrightarrow> nat ((m + 99) div 100) \<le> i"
  by auto

lemma accumulate_Some_upto:
  assumes stop: "\<And>j. m \<le> 100 * int j \<longleftrightarrow> k \<le> j"
  shows "i \<le> k \<Longrightarrow>
   accumulate (Some m) 100 i bs (xt, yt) =
     (xt @ map fst (take (Suc k - i) bs), yt @ map snd (take (Suc k - i) bs))"
proof (induction bs arbitrary: i xt yt)
  case Nil
  then show ?case by simp
next
  case (Cons p bs)
  obtain x y where p: "p = (x, y)" by (cases p)
  show ?case
  proof (cases "k \<le> i")
    case True
    with Cons.prems have "i = k" by simp
    then show ?thesis using True by (simp add: p stop)
  next
    case False
    then have "Suc i \<le> k" by simp
    from Cons.IH[OF this] False show ?thesis
      by (simp add: p stop Suc_diff_le)
  qed
qed

lemma accumulate_Some:
  "accumulate (Some m) 100 0 bs (xt, yt) =
     (xt @ map fst (take (Suc (nat ((m + 99) div 100))) bs),
      yt @ map snd (take (Suc (nat ((m + 99) div 100))) bs))"
  using accumulate_Some_upto[of m "nat ((m + 99) div 100)" 0 bs xt yt]
  by (simp only: stop_index_iff le0 diff_zero)

lemma concat_map_fst_collate: "concat (map fst (map collate bs)) = map fst (concat bs)"
  by (induction bs) (simp_all add: collate_def)

lemma concat_map_snd_collate: "concat (map snd (map collate bs)) = map snd (concat bs)"
  by (induction bs) (simp_all add: collate_def)

lemma MNIST_empty_iff: "MNIST V tf = [] \<longleftrightarrow> MNIST_test V = []"
  by (simp add: MNIST_def)

lemma length_MNIST: "length (MNIST V tf) = length (MNIST_test V)"
  by (simp add: MNIST_def)

lemma py_slice_to_prefix: "py_slice_to n t = take (length (py_slice_to n t)) t"
proof -
  have "take k t = take (length (take k t)) t" for k
    by (simp add: min_def)
  then show ?thesis
    unfolding py_slice_to_def by (cases "0 \<le> n") presburger+
qed

lemma accumulated_None:
  "accumulated V r None =
     (map fst (map collate (batches 100 (MNIST V (transform_of r)))),
      map snd (map collate (batches 100 (MNIST V (transform_of r)))))"
  by (simp add: accumulated_def DataLoader_def accumulate_None Let_def del: map_map)

lemma accumulated_Some:
  "accumulated V r (Some m) =
     (take (Suc (nat ((m + 99) div 100))) (fst (accumulated V r None)),
      take (Suc (nat ((m + 99) div 100))) (snd (accumulated V r None)))"
  unfolding accumulated_None
  by (simp add: accumulated_def DataLoader_def accumulate_Some take_map Let_def del: map_map)

lemma cat_x_None:
  "MNIST_test V \<noteq> [] \<Longrightarrow>
   torch_cat (fst (accumulated V r None)) = Inr (map fst (MNIST V (transform_of r)))"
  unfolding accumulated_None
  by (simp add: torch_cat_def batches_nonempty MNIST_empty_iff concat_map_fst_collate concat_batches del: map_map)

lemma cat_y_None:
  "MNIST_test V \<noteq> [] \<Longrightarrow>
   torch_cat (snd (accumulated V r None)) = Inr (map snd (MNIST V (transform_of r)))"
  unfolding accumulated_None
  by (simp add: torch_cat_def batches_nonempty MNIST_empty_iff concat_map_snd_collate concat_batches del: map_map)

lemma cat_x_Some:
  assumes "MNIST_test V \<noteq> []"
  shows "torch_cat (fst (accumulated V r (Some m))) =
     Inr (map fst (take (Suc (nat ((m + 99) div 100)) * 100) (MNIST V (transform_of r))))"
proof -
  let ?D = "MNIST V (transform_of r)"
  have ne: "take (Suc (nat ((m + 99) div 100))) (batches 100 ?D) \<noteq> []"
    using assms batches_nonempty[of 100 ?D] by (simp add: MNIST_empty_iff)
  have "fst (accumulated V r (Some m)) =
        map fst (map collate (take (Suc (nat ((m + 99) div 100))) (batches 100 ?D)))"
    unfolding accumulated_Some accumulated_None by (simp only: fst_conv take_map)
  then show ?thesis
    using ne by (simp add: torch_cat_def concat_map_fst_collate concat_take_batches del: map_map)
qed

lemma cat_y_Some:
  assumes "MNIST_test V \<noteq> []"
  shows "torch_cat (snd (accumulated V r (Some m))) =
     Inr (map snd (take (Suc (nat ((m + 99) div 100)) * 100) (MNIST V (transform_of r))))"
proof -
  let ?D = "MNIST V (transform_of r)"
  have ne: "take (Suc (nat ((m + 99) div 100))) (batches 100 ?D) \<noteq> []"
    using assms batches_nonempty[of 100 ?D] by (simp add: MNIST_empty_iff)
  have "snd (accumulated V r (Some m)) =
        map snd (map collate (take (Suc (nat ((m + 99) div 100))) (batches 100 ?D)))"
    unfolding accumulated_Some accumulated_None by (simp only: snd_conv take_map)
  then show ?thesis
    using ne by (simp add: torch_cat_def concat_map_snd_collate concat_take_batches del: map_map)
qed

lemma cat_empty:
  "MNIST_test V = [] \<Longrightarrow> torch_cat (fst (accumulated V r n)) = Inl RuntimeError"
  by (simp add: accumulated_def DataLoader_def MNIST_def Let_def batches.simps torch_cat_def)

lemma load_cifar_r_None:
  "MNIST_test V \<noteq> [] \<Longrightarrow>
   load_cifar_r V r None =
     Inr (map fst (MNIST V (transform_of r)), map snd (MNIST V (transform_of r)))"
  by (simp add: load_cifar_r_def cat_x_None cat_y_None case_prod_beta)

lemma load_cifar_r_Some:
  "MNIST_test V \<noteq> [] \<Longrightarrow>
   load_cifar_r V r (Some m) =
     Inr (py_slice_to m (map fst (take (Suc (nat ((m + 99) div 100)) * 100) (MNIST V (transform_of r)))),
          py_slice_to m (map snd (take (Suc (nat ((m + 99) div 100)) * 100) (MNIST V (transform_of r)))))"
  by (simp add: load_cifar_r_def cat_x_Some cat_y_Some case_prod_beta)

lemma load_cifar_r_empty:
  "MNIST_test V = [] \<Longrightarrow> load_cifar_r V r n = Inl RuntimeError"
  by (simp add: load_cifar_r_def cat_empty case_prod_beta)

lemma stop_index_bound: "0 < m \<Longrightarrow> nat m \<le> Suc (nat ((m + 99) div 100)) * 100"
  by auto


lemma zip_take_map: "zip (take k (map fst D)) (take k (map snd D)) = take k D"
  by (simp add: take_zip[symmetric] zip_map_fst_snd)

lemma take_length_take: "take (length (take k xs)) xs = take k xs"
  by (simp add: min_def)

lemma zip_slice:
  "zip (py_slice_to n (map fst D)) (py_slice_to n (map snd D)) =
     take (length (py_slice_to n (map fst D))) D"
proof -
  define k where "k = (if 0 \<le> n then nat n else length D - nat (- n))"
  have x: "py_slice_to n (map fst D) = take k (map fst D)"
    by (simp add: py_slice_to_def k_def)
  have y: "py_slice_to n (map snd D) = take k (map snd D)"
    by (simp add: py_slice_to_def k_def)
  have "length (take k (map fst D)) = length (take k D)" by simp
  then show ?thesis
    unfolding x y zip_take_map by (simp only: take_length_take)
qed

lemma take_length_slice_take:
  "take (length (py_slice_to n (map f (take j D)))) (take j D) =
   take (length (py_slice_to n (map f (take j D)))) D"
  by (cases "0 \<le> n") (simp_all add: py_slice_to_def min_def)

lemma load_cifar_r_shape:
  assumes "MNIST_test V \<noteq> []"
  shows "\<exists>X Y xs ys.
    torch_cat (fst (accumulated V rotation n_examples)) = Inr X \<and>
    torch_cat (snd (accumulated V rotation n_examples)) = Inr Y \<and>
    length X = length Y \<and>
    load_cifar_r V rotation n_examples = Inr (xs, ys) \<and>
    (case n_examples of
       None \<Rightarrow> xs = X \<and> ys = Y
     | Some n \<Rightarrow> xs = py_slice_to n X \<and> ys = py_slice_to n Y) \<and>
    length xs = length ys \<and>
    zip xs ys = take (length xs) (MNIST V (transform_of rotation))"
proof (cases n_examples)
  case None
  let ?D = "MNIST V (transform_of rotation)"
  have "zip (map fst ?D) (map snd ?D) = take (length (map fst ?D)) ?D"
    by (simp add: zip_map_fst_snd)
  then show ?thesis
    unfolding None
    using cat_x_None[OF assms, of rotation] cat_y_None[OF assms, of rotation]
      load_cifar_r_None[OF assms, of rotation]
    by (intro exI[of _ "map fst ?D"] exI[of _ "map snd ?D"]) simp
next
  case (Some n)
  let ?D = "take (Suc (nat ((n + 99) div 100)) * 100) (MNIST V (transform_of rotation))"
  have len: "length (py_slice_to n (map fst ?D)) = length (py_slice_to n (map snd ?D))"
    by (simp add: py_slice_to_def)
  have "zip (py_slice_to n (map fst ?D)) (py_slice_to n (map snd ?D)) =
          take (length (py_slice_to n (map fst ?D))) ?D"
    by (rule zip_slice)
  also have "\<dots> = take (length (py_slice_to n (map fst ?D))) (MNIST V (transform_of rotation))"
    by (rule take_length_slice_take)
  finally have z: "zip (py_slice_to n (map fst ?D)) (py_slice_to n (map snd ?D)) =
     take (length (py_slice_to n (map fst ?D))) (MNIST V (transform_of rotation))" .
  show ?thesis
    unfolding Some
    using cat_x_Some[OF assms, of rotation n] cat_y_Some[OF assms, of rotation n]
      load_cifar_r_Some[OF assms, of rotation n] len z
    by (intro exI[of _ "map fst ?D"] exI[of _ "map snd ?D"]
        exI[of _ "py_slice_to n (map fst ?D)"] exI[of _ "py_slice_to n (map snd ?D)"]) simp
qed

lemma transform_call_randperm:
  "transform_call (V\<lparr>randperm := g\<rparr>) = transform_call V"
proof (rule ext)
  fix t
  show "transform_call (V\<lparr>randperm := g\<rparr>) t = transform_call V t"
    by (cases t) (auto simp: RotationTransform_call_def)
qed

lemma load_cifar_r_randperm:
  "load_cifar_r (V\<lparr>randperm := g\<rparr>) rotation n = load_cifar_r V rotation n"
  by (simp add: load_cifar_r_def accumulated_def DataLoader_def MNIST_def Compose_call_def
      transform_call_randperm)

lemma MNIST_fst: "map fst (MNIST V tf) = map (\<lambda>(img, target). Compose_call V tf img) (MNIST_test V)"
  by (simp add: MNIST_def case_prod_beta)

lemma MNIST_snd: "map snd (MNIST V tf) = map snd (MNIST_test V)"
  by (simp add: MNIST_def case_prod_beta)

lemma load_cifar_r_prefix:
  assumes "load_cifar_r V rotation n = Inr (xs, ys)"
  shows "xs = take (length xs) (map fst (MNIST V (transform_of rotation)))"
    and "ys = take (length ys) (map snd (MNIST V (transform_of rotation)))"
proof -
  have ne: "MNIST_test V \<noteq> []"
    using assms load_cifar_r_empty[of V rotation n] by auto
  from load_cifar_r_shape[OF ne, of rotation n] assms
  have len: "length xs = length ys"
    and z: "zip xs ys = take (length xs) (MNIST V (transform_of rotation))"
    by auto
  have "xs = map fst (zip xs ys)" using len by simp
  then show "xs = take (length xs) (map fst (MNIST V (transform_of rotation)))"
    unfolding z by (simp only: take_map)
  have "ys = map snd (zip xs ys)" using len by simp
  then show "ys = take (length ys) (map snd (MNIST V (transform_of rotation)))"
    unfolding z len by (simp only: take_map)
qed


lemma Compose_transform_of:
  "Compose_call V (transform_of rotation) img =
     TF_rotate V (Normalize V [1307 / 10000] [3081 / 10000] (ToTensor V img)) rotation"
  by (simp add: Compose_call_def transform_of_def RotationTransform_call_def)


section \<open>Facts about the key rewrite\<close>

lemma str_replace_no_occurrence:
  "old \<noteq> [] \<Longrightarrow> \<not> sublist old s \<Longrightarrow> str_replace old new s = s"
proof (induction old new s rule: str_replace.induct)
  case (1 old new s)
  show ?case
  proof (cases s)
    case Nil
    then show ?thesis using "1.prems" by (subst str_replace.simps) simp
  next
    case (Cons c cs)
    have np: "\<not> prefix old s"
      using "1.prems"(2) prefix_imp_sublist by blast
    have ns: "\<not> sublist old (tl s)"
      using "1.prems"(2) Cons by (auto simp: sublist_Cons_right)
    have "str_replace old new (tl s) = tl s"
      using "1.IH"(2) "1.prems"(1) np ns Cons by simp
    then show ?thesis
      using "1.prems"(1) np Cons by (subst str_replace.simps) simp
  qed
qed

lemma length_str_replace_le:
  "old \<noteq> [] \<Longrightarrow> length (str_replace old [] s) \<le> length s"
proof (induction old "[] :: string" s rule: str_replace.induct)
  case (1 old s)
  show ?case
  proof (cases "s = []")
    case True
    then show ?thesis using "1.prems" by (subst str_replace.simps) simp
  next
    case False
    show ?thesis
    proof (cases "prefix old s")
      case True
      have "length (str_replace old [] (drop (length old) s)) \<le> length (drop (length old) s)"
        using "1.hyps"(1) "1.prems" False True by simp
      then show ?thesis
        using "1.prems" False True by (subst str_replace.simps) simp
    next
      case np: False
      have "length (str_replace old [] (tl s)) \<le> length (tl s)"
        using "1.hyps"(2) "1.prems" False np by simp
      moreover have "length s = Suc (length (tl s))" using False by simp
      moreover have "length (str_replace old [] s) = Suc (length (str_replace old [] (tl s)))"
        using "1.prems" False np by (subst str_replace.simps) simp
      ultimately show ?thesis by arith
    qed
  qed
qed

lemma length_str_replace_less:
  "old \<noteq> [] \<Longrightarrow> sublist old s \<Longrightarrow> length (str_replace old [] s) < length s"
proof (induction old "[] :: string" s rule: str_replace.induct)
  case (1 old s)
  from "1.prems" have ne: "s \<noteq> []" by auto
  show ?case
  proof (cases "prefix old s")
    case True
    have "length (str_replace old [] (drop (length old) s)) \<le> length (drop (length old) s)"
      using "1.prems"(1) by (rule length_str_replace_le)
    moreover have "length old \<le> length s" using True by (rule prefix_length_le)
    moreover have "0 < length old" using "1.prems"(1) by simp
    moreover have "length (drop (length old) s) = length s - length old" by simp
    moreover have "length (str_replace old [] s) = length (str_replace old [] (drop (length old) s))"
      using "1.prems"(1) ne True by (subst str_replace.simps) simp
    ultimately show ?thesis by arith
  next
    case np: False
    obtain c cs where s: "s = c # cs" using ne by (cases s) auto
    have "sublist old (tl s)"
      using "1.prems"(2) np s by (auto simp: sublist_Cons_right)
    then have "length (str_replace old [] (tl s)) < length (tl s)"
      using "1.hyps"(2) "1.prems"(1) ne np by simp
    moreover have "length s = Suc (length (tl s))" using ne by simp
    moreover have "length (str_replace old [] s) = Suc (length (str_replace old [] (tl s)))"
      using "1.prems"(1) ne np by (subst str_replace.simps) simp
    ultimately show ?thesis by arith
  qed
qed

lemma new_key_fixed_iff: "new_key k = k \<longleftrightarrow> \<not> sublist ''module.'' k"
proof
  assume "new_key k = k"
  then show "\<not> sublist ''module.'' k"
    using length_str_replace_less[of "''module.''" k] by (auto simp: new_key_def)
next
  assume "\<not> sublist ''module.'' k"
  then show "new_key k = k"
    unfolding new_key_def by (intro str_replace_no_occurrence) simp_all
qed

lemma keys_setitem_pop:
  "fst ` set (dict_setitem (AList.delete key sd) nk v) = insert nk (fst ` set sd - {key})"
proof -
  have "set (map fst (AList.delete key sd)) = set (removeAll key (map fst sd))"
    by (simp only: delete_keys)
  then have "fst ` set (AList.delete key sd) = fst ` set sd - {key}"
    by (simp only: set_map set_removeAll)
  then show ?thesis
    by (simp add: dict_setitem_def dom_update)
qed

lemma dict_pop_present:
  assumes "key \<in> fst ` set sd"
  shows "\<exists>v. map_of sd key = Some v \<and> dict_pop sd key = Inr (v, AList.delete key sd)"
proof -
  from assms have "map_of sd key \<noteq> None"
    by (simp only: map_of_eq_None_iff not_not)
  then obtain v where "map_of sd key = Some v"
    by blast
  then show ?thesis by (simp add: dict_pop_def)
qed

lemma rewrite_loop_runs:
  assumes "distinct ks" and "set ks \<subseteq> fst ` set sd" and "distinct (map fst sd)"
  shows "\<exists>sd'. rewrite_loop ks sd = Inr sd' \<and>
           fst ` set sd' \<subseteq> (fst ` set sd - set ks) \<union> new_key ` set ks \<and>
           distinct (map fst sd')"
  using assms
proof (induction ks arbitrary: sd)
  case Nil
  then show ?case by simp
next
  case (Cons key ks)
  from Cons.prems(2) have mem: "key \<in> fst ` set sd" by simp
  from dict_pop_present[OF mem] obtain v where
    pop: "dict_pop sd key = Inr (v, AList.delete key sd)"
    by blast
  let ?sd = "dict_setitem (AList.delete key sd) (new_key key) v"
  have keys: "fst ` set ?sd = insert (new_key key) (fst ` set sd - {key})"
    by (rule keys_setitem_pop)
  have d: "distinct (map fst ?sd)"
    using Cons.prems(3) by (simp add: dict_setitem_def distinct_update distinct_delete)
  have sub: "set ks \<subseteq> fst ` set ?sd"
    using Cons.prems(1,2) unfolding keys by auto
  from Cons.prems(1) have dk: "distinct ks" by simp
  from Cons.IH[OF dk sub d] obtain sd' where
    run: "rewrite_loop ks ?sd = Inr sd'" and
    ks': "fst ` set sd' \<subseteq> (fst ` set ?sd - set ks) \<union> new_key ` set ks" and
    d': "distinct (map fst sd')"
    by blast
  have "rewrite_loop (key # ks) sd = Inr sd'"
    using pop run by simp
  moreover have "fst ` set sd' \<subseteq> (fst ` set sd - set (key # ks)) \<union> new_key ` set (key # ks)"
    using ks' unfolding keys by auto
  ultimately show ?case using d' by blast
qed

lemma rewrite_loop_fixed:
  assumes "\<forall>k\<in>set ks. new_key k = k \<and> k \<in> fst ` set sd"
  shows "\<exists>sd'. rewrite_loop ks sd = Inr sd' \<and> map_of sd' = map_of sd"
  using assms
proof (induction ks arbitrary: sd)
  case Nil
  then show ?case by simp
next
  case (Cons key ks)
  from Cons.prems have fx: "new_key key = key" and mem: "key \<in> fst ` set sd" by simp_all
  from dict_pop_present[OF mem] obtain v where
    v: "map_of sd key = Some v" and pop: "dict_pop sd key = Inr (v, AList.delete key sd)"
    by blast
  let ?sd = "dict_setitem (AList.delete key sd) (new_key key) v"
  have m: "map_of ?sd = map_of sd"
    using v by (auto simp: dict_setitem_def update_conv' delete_conv' fx)
  then have "dom (map_of ?sd) = dom (map_of sd)"
    by (rule arg_cong)
  then have "fst ` set ?sd = fst ` set sd"
    by (simp only: dom_map_of_conv_image_fst)
  with Cons.prems have "\<forall>k\<in>set ks. new_key k = k \<and> k \<in> fst ` set ?sd" by simp
  from Cons.IH[OF this] obtain sd' where
    "rewrite_loop ks ?sd = Inr sd'" and "map_of sd' = map_of ?sd" by blast
  then show ?case using pop m by simp
qed

lemma rewrite_keys_twice:
  assumes "distinct (map fst sd)"
    and "\<forall>k\<in>fst ` set sd. \<not> sublist ''module.'' (new_key k)"
  shows "\<exists>sd1 sd2. rewrite_keys sd = Inr sd1 \<and> rewrite_keys sd1 = Inr sd2 \<and>
           map_of sd2 = map_of sd1"
proof -
  from rewrite_loop_runs[of "map fst sd" sd] assms(1) obtain sd1 where
    r1: "rewrite_keys sd = Inr sd1" and
    k1: "fst ` set sd1 \<subseteq> new_key ` fst ` set sd"
    unfolding rewrite_keys_def by auto
  have "\<forall>k\<in>set (map fst sd1). new_key k = k \<and> k \<in> fst ` set sd1"
  proof
    fix k
    assume k: "k \<in> set (map fst sd1)"
    then have mem: "k \<in> fst ` set sd1" by simp
    with k1 obtain k0 where "k0 \<in> fst ` set sd" and "k = new_key k0" by blast
    with assms(2) have "\<not> sublist ''module.'' k" by blast
    then have "new_key k = k" using new_key_fixed_iff[of k] by blast
    with mem show "new_key k = k \<and> k \<in> fst ` set sd1" by simp
  qed
  from rewrite_loop_fixed[OF this] obtain sd2 where
    "rewrite_keys sd1 = Inr sd2" and "map_of sd2 = map_of sd1"
    unfolding rewrite_keys_def by blast
  with r1 show ?thesis by blast
qed

section \<open>Facts about the driver\<close>

lemma py_range_angles:
  "py_range 0 181 10 =
     [0, 10, 20, 30, 40, 50, 60, 70, 80, 90, 100, 110, 120, 130, 140, 150, 160, 170, 180]"
  by code_simp

subsection \<open>Selecting the wrapped model\<close>

lemma select_model_source:
  "MODEL_ADAPTATION c = ''source'' \<Longrightarrow>
   select_model T c base tr =
     (Inr (Some (module_eval T base)),
      tr @ [Info ''test-time adaptation: NONE'', Info ''model for evaluation: %s''])"
  by (simp add: select_model_def setup_source_def)

lemma select_model_norm:
  "MODEL_ADAPTATION c = ''norm'' \<Longrightarrow>
   select_model T c base tr =
     (Inr (Some (norm_Norm T base)),
      tr @ [Info ''test-time adaptation: NORM'', Info ''model for adaptation: %s'',
            Info ''stats for adaptation: %s''])"
  by (simp add: select_model_def setup_norm_def Let_def)

lemma select_model_tent:
  assumes "MODEL_ADAPTATION c = ''tent''"
    and "setup_optimizer c (fst (tent_collect_params T (tent_configure_model T base))) = Inr opt"
  shows "select_model T c base tr =
     (Inr (Some (tent_Tent T (tent_configure_model T base) opt (OPTIM_STEPS c)
                   (MODEL_EPISODIC c))),
      tr @ [Info ''test-time adaptation: TENT'', Info ''model for adaptation: %s'',
            Info ''params for adaptation: %s'', Info ''optimizer for adaptation: %s''])"
  using assms
  by (simp add: select_model_def setup_tent_def Let_def case_prod_beta)

lemma select_model_tent_raise:
  assumes "MODEL_ADAPTATION c = ''tent''"
    and "OPTIM_METHOD c \<noteq> ''Adam''" and "OPTIM_METHOD c \<noteq> ''SGD''"
  shows "select_model T c base tr =
     (Inl NotImplementedError, tr @ [Info ''test-time adaptation: TENT''])"
  using assms
  by (simp add: select_model_def setup_tent_def setup_optimizer_def Let_def case_prod_beta)

lemma select_model_unbound:
  assumes "MODEL_ADAPTATION c \<noteq> ''source''" and "MODEL_ADAPTATION c \<noteq> ''norm''"
    and "MODEL_ADAPTATION c \<noteq> ''tent''"
  shows "select_model T c base tr = (Inr None, tr)"
  using assms by (simp add: select_model_def)

lemma setup_optimizer_ok:
  "OPTIM_METHOD c = ''Adam'' \<or> OPTIM_METHOD c = ''SGD'' \<Longrightarrow>
   \<exists>opt. setup_optimizer c p = Inr opt"
  by (auto simp: setup_optimizer_def)

text \<open>Whatever the configuration, selecting the model only adds setup lines to the trace.\<close>

lemma select_model_trace:
  fixes T :: "('v, 'l, 'w, 'e, 'p) torch"
  shows "\<exists>es. snd (select_model T c base tr) = tr @ es \<and>
           (\<forall>e\<in>set es. is_setup_event (e :: 'e event) \<and> \<not> is_reset_event e)"
proof -
  consider (s) "MODEL_ADAPTATION c = ''source''" | (n) "MODEL_ADAPTATION c = ''norm''"
    | (t) "MODEL_ADAPTATION c = ''tent''"
        "OPTIM_METHOD c = ''Adam'' \<or> OPTIM_METHOD c = ''SGD''"
    | (r) "MODEL_ADAPTATION c = ''tent''" "OPTIM_METHOD c \<noteq> ''Adam''"
        "OPTIM_METHOD c \<noteq> ''SGD''"
    | (u) "MODEL_ADAPTATION c \<noteq> ''source''" "MODEL_ADAPTATION c \<noteq> ''norm''"
        "MODEL_ADAPTATION c \<noteq> ''tent''"
    by blast
  then show ?thesis
  proof cases
    case s
    let ?es = "[Info ''test-time adaptation: NONE'', Info ''model for evaluation: %s'']"
    have ok: "\<forall>e\<in>set ?es. is_setup_event (e :: 'e event) \<and> \<not> is_reset_event e"
      by simp
    have eq: "snd (select_model T c base tr) = tr @ ?es"
      by (simp only: select_model_source[OF s] snd_conv)
    show ?thesis
      by (rule exI[of _ ?es], rule conjI[OF eq ok])
  next
    case n
    let ?es = "[Info ''test-time adaptation: NORM'', Info ''model for adaptation: %s'',
            Info ''stats for adaptation: %s'']"
    have ok: "\<forall>e\<in>set ?es. is_setup_event (e :: 'e event) \<and> \<not> is_reset_event e"
      by simp
    have eq: "snd (select_model T c base tr) = tr @ ?es"
      by (simp only: select_model_norm[OF n] snd_conv)
    show ?thesis
      by (rule exI[of _ ?es], rule conjI[OF eq ok])
  next
    case t
    let ?p = "fst (tent_collect_params T (tent_configure_model T base))"
    from setup_optimizer_ok[OF t(2), of ?p] obtain opt where
      opt: "setup_optimizer c ?p = Inr opt"
      by blast
    let ?es = "[Info ''test-time adaptation: TENT'', Info ''model for adaptation: %s'',
            Info ''params for adaptation: %s'', Info ''optimizer for adaptation: %s'']"
    have ok: "\<forall>e\<in>set ?es. is_setup_event (e :: 'e event) \<and> \<not> is_reset_event e"
      by simp
    have eq: "snd (select_model T c base tr) = tr @ ?es"
      by (simp only: select_model_tent[OF t(1) opt] snd_conv)
    show ?thesis
      by (rule exI[of _ ?es], rule conjI[OF eq ok])
  next
    case r
    let ?es = "[Info ''test-time adaptation: TENT'']"
    have ok: "\<forall>e\<in>set ?es. is_setup_event (e :: 'e event) \<and> \<not> is_reset_event e"
      by simp
    have eq: "snd (select_model T c base tr) = tr @ ?es"
      by (simp only: select_model_tent_raise[OF r] snd_conv)
    show ?thesis
      by (rule exI[of _ ?es], rule conjI[OF eq ok])
  next
    case u
    have ok: "\<forall>e\<in>set []. is_setup_event (e :: 'e event) \<and> \<not> is_reset_event e"
      by simp
    have eq: "snd (select_model T c base tr) = tr @ []"
      by (simp only: select_model_unbound[OF u] snd_conv append_Nil2)
    show ?thesis
      by (rule exI[of _ "[]"], rule conjI[OF eq ok])
  qed
qed

text \<open>The variable is bound after the selection exactly for the three known modes.\<close>

lemma select_model_bound:
  assumes "select_model T c base tr = (Inr (Some m), tr')"
  shows "MODEL_ADAPTATION c = ''source'' \<or> MODEL_ADAPTATION c = ''norm'' \<or>
         MODEL_ADAPTATION c = ''tent''"
proof (rule ccontr)
  assume "\<not> ?thesis"
  then have "select_model T c base tr = (Inr None, tr)"
    by (intro select_model_unbound) simp_all
  with assms show False by simp
qed

subsection \<open>One iteration\<close>

lemma angle_step_bound:
  assumes "load_cifar_r V a None = Inr (x, y)"
    and "m1 = after_reset T c m"
    and "accuracy T m1 x y (TEST_BATCH_SIZE c) = (acc, m2)"
  shows "angle_step V T c a (Some m) tr =
           (Inr (Some m2), tr @ step_events T c (a, m, m1, acc, m2))"
proof (cases "MODEL_EVOLVE c")
  case True
  with assms(2) have "m1 = m" by (simp add: after_reset_def)
  with assms(1,3) True show ?thesis
    by (simp add: angle_step_def step_events_def Let_def)
next
  case False
  show ?thesis
  proof (cases "model_reset T m")
    case None
    with assms(2) False have "m1 = m" by (simp add: after_reset_def)
    with assms(1,3) False None show ?thesis
      by (simp add: angle_step_def try_reset_def step_events_def Let_def)
  next
    case (Some m')
    with assms(2) False have "m1 = m'" by (simp add: after_reset_def)
    with assms(1,3) False Some show ?thesis
      by (simp add: angle_step_def try_reset_def step_events_def Let_def)
  qed
qed

lemma angle_step_unbound:
  assumes "MNIST_test V \<noteq> []"
  shows "angle_step V T c a None tr =
     (Inl UnboundLocalError,
      tr @ (if MODEL_EVOLVE c then [] else [Warning ''not resetting model'']) @
        [Load a None])"
  using load_cifar_r_None[OF assms, of a]
  by (simp add: angle_step_def try_reset_def Let_def)

lemma angle_step_no_data:
  assumes "MNIST_test V = []"
  shows "\<exists>tail. angle_step V T c a model tr = (Inl RuntimeError, tr @ tail) \<and>
           (\<forall>e\<in>set tail. \<not> is_accuracy e) \<and>
           (MODEL_EVOLVE c \<longrightarrow> (\<forall>e\<in>set tail. \<not> is_reset_event e))"
proof -
  have ld: "load_cifar_r V a None = Inl RuntimeError"
    using assms by (rule load_cifar_r_empty)
  show ?thesis
  proof (cases "MODEL_EVOLVE c")
    case True
    then have "angle_step V T c a model tr = (Inl RuntimeError, tr @ [Load a None])"
      by (simp add: angle_step_def ld Let_def)
    then show ?thesis by simp
  next
    case False
    obtain model' tr' where tr: "try_reset T model tr = (model', tr')"
      by (cases "try_reset T model tr")
    then obtain es where es: "tr' = tr @ es" "\<forall>e\<in>set es. \<not> is_accuracy e"
      by (auto simp: try_reset_def split: option.splits)
    have "angle_step V T c a model tr = (Inl RuntimeError, tr @ es @ [Load a None])"
      using False tr es(1) by (simp add: angle_step_def ld Let_def)
    then show ?thesis using es(2) False by auto
  qed
qed

subsection \<open>The sweep\<close>

lemma sweep_steps:
  assumes "MNIST_test V \<noteq> []"
  shows "\<exists>steps. map fst steps = as \<and>
           sweep V T c as (Some m) tr =
             (Inr (), tr @ concat (map (step_events T c) steps)) \<and>
           linked V T c m steps"
proof (induction as arbitrary: m tr)
  case Nil
  show ?case by simp
next
  case (Cons a as)
  obtain x y where ld: "load_cifar_r V a None = Inr (x, y)"
    using load_cifar_r_None[OF assms, of a] by blast
  define m1 where "m1 = after_reset T c m"
  obtain acc m2 where ac: "accuracy T m1 x y (TEST_BATCH_SIZE c) = (acc, m2)"
    by (cases "accuracy T m1 x y (TEST_BATCH_SIZE c)")
  let ?s = "(a, m, m1, acc, m2)"
  have st: "angle_step V T c a (Some m) tr = (Inr (Some m2), tr @ step_events T c ?s)"
    using ld m1_def ac by (rule angle_step_bound)
  from Cons.IH[of m2 "tr @ step_events T c ?s"] obtain steps where
    fs: "map fst steps = as" and
    sw: "sweep V T c as (Some m2) (tr @ step_events T c ?s) =
           (Inr (), (tr @ step_events T c ?s) @ concat (map (step_events T c) steps))" and
    lk: "linked V T c m2 steps"
    by blast
  have "map fst (?s # steps) = a # as"
    using fs by simp
  moreover have "sweep V T c (a # as) (Some m) tr =
          (Inr (), tr @ concat (map (step_events T c) (?s # steps)))"
    using st sw by simp
  moreover have "linked V T c m (?s # steps)"
    using ld ac lk m1_def by auto
  ultimately show ?case
    by (intro exI[of _ "?s # steps"] conjI)
qed

lemma sweep_unbound:
  assumes "MNIST_test V \<noteq> []"
  shows "sweep V T c (a # as) None tr =
     (Inl UnboundLocalError,
      tr @ (if MODEL_EVOLVE c then [] else [Warning ''not resetting model'']) @
        [Load a None])"
  by (simp add: angle_step_unbound[OF assms])

lemma sweep_no_data:
  assumes "MNIST_test V = []"
  shows "\<exists>tail. sweep V T c (a # as) model tr = (Inl RuntimeError, tr @ tail) \<and>
           (\<forall>e\<in>set tail. \<not> is_accuracy e) \<and>
           (MODEL_EVOLVE c \<longrightarrow> (\<forall>e\<in>set tail. \<not> is_reset_event e))"
proof -
  from angle_step_no_data[OF assms, of T c a model tr] obtain tail where
    st: "angle_step V T c a model tr = (Inl RuntimeError, tr @ tail)" and
    ok: "\<forall>e\<in>set tail. \<not> is_accuracy e"
        "MODEL_EVOLVE c \<longrightarrow> (\<forall>e\<in>set tail. \<not> is_reset_event e)"
    by blast
  have "sweep V T c (a # as) model tr = (Inl RuntimeError, tr @ tail)"
    using st by simp
  with ok show ?thesis by blast
qed


subsection \<open>A whole run\<close>

lemma evaluate_boot:
  assumes "rewrite_keys (torch_load_net T) = Inr sd"
    and "load_state_dict T (LeNet5 T) sd = Inr base"
  shows "evaluate V T c =
     (case select_model T c base [Print ''==> Loading from checkpoint..''] of
        (Inl e, tr) \<Rightarrow> (Inl e, tr)
      | (Inr model, tr) \<Rightarrow> sweep V T c (py_range 0 181 10) model tr)"
  using assms by (simp add: evaluate_def)

text \<open>
  Every run either aborts with an exception before any accuracy call, or returns after
  the setup lines and one block of events for each of the nineteen angles.
\<close>

lemma evaluate_run:
  fixes T :: "('v, 'l, 'w, 'e, 'p) torch"
  shows "(\<exists>x es tail.
            evaluate V T c = (Inl x, (Print ''==> Loading from checkpoint..'' # es) @ tail) \<and>
            (\<forall>e\<in>set es. is_setup_event (e :: 'e event) \<and> \<not> is_reset_event e) \<and>
            (\<forall>e\<in>set tail. \<not> is_accuracy e) \<and>
            (MODEL_EVOLVE c \<longrightarrow> (\<forall>e\<in>set tail. \<not> is_reset_event e))) \<or>
         (\<exists>m0 es steps.
            map fst steps =
              [0, 10, 20, 30, 40, 50, 60, 70, 80, 90, 100, 110, 120, 130, 140, 150, 160,
               170, 180] \<and>
            evaluate V T c =
              (Inr (), (Print ''==> Loading from checkpoint..'' # es) @
                       concat (map (step_events T c) steps)) \<and>
            (\<forall>e\<in>set es. is_setup_event (e :: 'e event) \<and> \<not> is_reset_event e) \<and>
            linked V T c m0 steps)"
  (is "?abort \<or> ?done")
proof -
  let ?P = "Print ''==> Loading from checkpoint..'' :: 'e event"
  let ?as = "[10, 20, 30, 40, 50, 60, 70, 80, 90, 100, 110, 120, 130, 140, 150, 160,
               170, 180] :: int list"
  have nil: "\<forall>e\<in>set ([] :: 'e event list). is_setup_event e \<and> \<not> is_reset_event e"
       "\<forall>e\<in>set ([] :: 'e event list). \<not> is_accuracy e"
       "MODEL_EVOLVE c \<longrightarrow> (\<forall>e\<in>set ([] :: 'e event list). \<not> is_reset_event e)"
    by simp_all
  show ?thesis
  proof (cases "rewrite_keys (torch_load_net T)")
    case (Inl x)
    then have "evaluate V T c = (Inl x, (?P # []) @ [])"
      by (simp add: evaluate_def)
    with nil have ?abort by blast
    then show ?thesis ..
  next
    case (Inr sd)
    show ?thesis
    proof (cases "load_state_dict T (LeNet5 T) sd")
      case (Inl x)
      with Inr have "evaluate V T c = (Inl x, (?P # []) @ [])"
        by (simp add: evaluate_def)
      with nil have ?abort by blast
      then show ?thesis ..
    next
      case base: (Inr base)
      note ev = evaluate_boot[OF Inr base, of V c]
      from select_model_trace[of T c base "[?P]"] obtain es where
        tr: "snd (select_model T c base [?P]) = [?P] @ es" and
        es: "\<forall>e\<in>set es. is_setup_event e \<and> \<not> is_reset_event e"
        by blast
      show ?thesis
      proof (cases "fst (select_model T c base [?P])")
        case (Inl x)
        then have "select_model T c base [?P] = (Inl x, [?P] @ es)"
          using tr by (metis prod.collapse)
        then have "evaluate V T c = (Inl x, (?P # es) @ [])"
          unfolding ev by simp
        with es nil(2,3) have ?abort by blast
        then show ?thesis ..
      next
        case model: (Inr model)
        then have sel: "select_model T c base [?P] = (Inr model, [?P] @ es)"
          using tr by (metis prod.collapse)
        have ev': "evaluate V T c = sweep V T c (0 # ?as) model (?P # es)"
          unfolding ev sel by (simp add: py_range_angles)
        show ?thesis
        proof (cases "MNIST_test V = []")
          case True
          from sweep_no_data[OF True, of T c 0 ?as model "?P # es"] obtain tail where
            "sweep V T c (0 # ?as) model (?P # es) = (Inl RuntimeError, (?P # es) @ tail)"
            "\<forall>e\<in>set tail. \<not> is_accuracy e"
            "MODEL_EVOLVE c \<longrightarrow> (\<forall>e\<in>set tail. \<not> is_reset_event e)"
            by blast
          with ev' es have ?abort by auto
          then show ?thesis ..
        next
          case data: False
          show ?thesis
          proof (cases model)
            case None
            let ?tail = "(if MODEL_EVOLVE c then [] else [Warning ''not resetting model'']) @
                [Load 0 None] :: 'e event list"
            have "evaluate V T c = (Inl UnboundLocalError, (?P # es) @ ?tail)"
              unfolding ev' None sweep_unbound[OF data] by simp
            moreover have "\<forall>e\<in>set ?tail. \<not> is_accuracy e" by simp
            moreover have "MODEL_EVOLVE c \<longrightarrow> (\<forall>e\<in>set ?tail. \<not> is_reset_event e)" by simp
            ultimately have ?abort using es by blast
            then show ?thesis ..
          next
            case (Some m0)
            from sweep_steps[OF data, of "0 # ?as" T c m0 "?P # es"] obtain steps where
              fs: "map fst steps = 0 # ?as" and
              sw: "sweep V T c (0 # ?as) (Some m0) (?P # es) =
                 (Inr (), (?P # es) @ concat (map (step_events T c) steps))" and
              lk: "linked V T c m0 steps"
              by (elim exE conjE)
            have e: "evaluate V T c =
                 (Inr (), (?P # es) @ concat (map (step_events T c) steps))"
              unfolding ev' Some by (rule sw)
            have ?done
              by (rule exI[of _ m0], rule exI[of _ es], rule exI[of _ steps])
                 (intro conjI fs e es lk)
            then show ?thesis ..
          qed
        qed
      qed
    qed
  qed
qed

lemma evaluate_completed:
  fixes T :: "('v, 'l, 'w, 'e, 'p) torch"
  assumes "fst (evaluate V T c) = Inr ()"
  shows "\<exists>m0 es steps.
            map fst steps =
              [0, 10, 20, 30, 40, 50, 60, 70, 80, 90, 100, 110, 120, 130, 140, 150, 160,
               170, 180] \<and>
            snd (evaluate V T c) =
              (Print ''==> Loading from checkpoint..'' # es) @
                       concat (map (step_events T c) steps) \<and>
            (\<forall>e\<in>set es. is_setup_event (e :: 'e event) \<and> \<not> is_reset_event e) \<and>
            linked V T c m0 steps"
  using evaluate_run[of V T c]
proof (elim disjE exE conjE)
  fix x es tail
  assume "evaluate V T c = (Inl x, (Print ''==> Loading from checkpoint..'' # es) @ tail)"
  with assms show ?thesis by simp
next
  fix m0 es steps
  assume fs: "map fst steps =
              [0, 10, 20, 30, 40, 50, 60, 70, 80, 90, 100, 110, 120, 130, 140, 150, 160,
               170, 180]"
    and ev: "evaluate V T c =
              (Inr (), (Print ''==> Loading from checkpoint..'' # es) @
                       concat (map (step_events T c) steps))"
    and es: "\<forall>e\<in>set es. is_setup_event e \<and> \<not> is_reset_event e"
    and lk: "linked V T c m0 steps"
  have sn: "snd (evaluate V T c) =
              (Print ''==> Loading from checkpoint..'' # es) @
                       concat (map (step_events T c) steps)"
    unfolding ev by simp
  show ?thesis
    by (rule exI[of _ m0], rule exI[of _ es], rule exI[of _ steps]) (intro conjI fs sn es lk)
qed

lemma evaluate_aborted:
  fixes T :: "('v, 'l, 'w, 'e, 'p) torch"
  assumes "fst (evaluate V T c) \<noteq> Inr ()"
  shows "\<exists>es tail.
            snd (evaluate V T c) = (Print ''==> Loading from checkpoint..'' # es) @ tail \<and>
            (\<forall>e\<in>set es. is_setup_event (e :: 'e event) \<and> \<not> is_reset_event e) \<and>
            (\<forall>e\<in>set tail. \<not> is_accuracy e) \<and>
            (MODEL_EVOLVE c \<longrightarrow> (\<forall>e\<in>set tail. \<not> is_reset_event e))"
  using evaluate_run[of V T c]
proof (elim disjE exE conjE)
  fix x es tail
  assume ev: "evaluate V T c = (Inl x, (Print ''==> Loading from checkpoint..'' # es) @ tail)"
    and es: "\<forall>e\<in>set es. is_setup_event e \<and> \<not> is_reset_event e"
    and t1: "\<forall>e\<in>set tail. \<not> is_accuracy e"
    and t2: "MODEL_EVOLVE c \<longrightarrow> (\<forall>e\<in>set tail. \<not> is_reset_event e)"
  have sn: "snd (evaluate V T c) = (Print ''==> Loading from checkpoint..'' # es) @ tail"
    unfolding ev by simp
  show ?thesis
    by (rule exI[of _ es], rule exI[of _ tail]) (intro conjI sn es t1 t2)
next
  fix m0 es steps
  assume "evaluate V T c =
              (Inr (), (Print ''==> Loading from checkpoint..'' # es) @
                       concat (map (step_events T c) steps))"
  with assms show ?thesis by simp
qed

subsection \<open>Filtering a trace\<close>


lemma setup_not_accuracy: "is_setup_event e \<Longrightarrow> \<not> is_accuracy e"
  by (cases e) simp_all

lemma setup_not_reset_or_load: "is_setup_event e \<Longrightarrow> \<not> is_reset_or_load e"
  by (cases e) simp_all

lemma filter_none: "(\<forall>e\<in>set es. \<not> P e) \<Longrightarrow> filter P es = []"
  by (induction es) auto

lemma filter_all: "(\<forall>e\<in>set es. P e) \<Longrightarrow> filter P es = es"
  by (induction es) auto


lemma filter_accuracy_steps:
  "length (filter is_accuracy (concat (map (step_events T c) steps))) = length steps"
  by (induction steps) (auto simp: step_events_def)

lemma filter_reset_steps_evolve:
  "MODEL_EVOLVE c \<Longrightarrow> filter is_reset_event (concat (map (step_events T c) steps)) = []"
  by (induction steps) (auto simp: step_events_def)

lemma filter_reset_load_acc_steps:
  "\<not> MODEL_EVOLVE c \<Longrightarrow>
   filter (\<lambda>e. is_reset_or_load e \<or> is_accuracy e) (concat (map (step_events T c) steps)) =
   concat (map (\<lambda>(a, m0, m1, acc, m2).
                  [Reset m0, Load a None, Accuracy m1 (TEST_BATCH_SIZE c) acc m2]) steps)"
  by (induction steps) (auto simp: step_events_def)

lemma filter_failed_reset_steps:
  "\<not> MODEL_EVOLVE c \<Longrightarrow> \<forall>m. model_reset T m = None \<Longrightarrow>
   filter (\<lambda>e. \<not> is_setup_event e) (concat (map (step_events T c) steps)) =
   concat (map (\<lambda>(a, m0, m1, acc, m2).
                  [Reset m0, Warning ''not resetting model'', Load a None,
                   Accuracy m1 (TEST_BATCH_SIZE c) acc m2, Error_pct a (1 - acc)]) steps)"
  by (induction steps) (auto simp: step_events_def)

lemma map_fst_proj:
  "map fst (map (\<lambda>(a, m0, m1, acc, m2). (a, m1, acc, m2)) steps) = map fst steps"
  by (induction steps) auto

subsection \<open>What the linked iterations say\<close>

lemma linked_member:
  "linked V T c m steps \<Longrightarrow> (a, m0, m1, acc, m2) \<in> set steps \<Longrightarrow>
   m1 = after_reset T c m0 \<and>
   (\<exists>x y. load_cifar_r V a None = Inr (x, y) \<and>
         accuracy T m1 x y (TEST_BATCH_SIZE c) = (acc, m2))"
proof (induction V T c m steps rule: linked.induct)
  case (1 V T c m)
  then show ?case by simp
next
  case (2 V T c m a' m0' m1' acc' m2' rest)
  from "2.prems"(2) consider "(a, m0, m1, acc, m2) = (a', m0', m1', acc', m2')"
    | "(a, m0, m1, acc, m2) \<in> set rest"
    by auto
  then show ?case
  proof cases
    case 1
    from "2.prems"(1) have "m1' = after_reset T c m0' \<and>
         (\<exists>x y. load_cifar_r V a' None = Inr (x, y) \<and>
         accuracy T m1' x y (TEST_BATCH_SIZE c) = (acc', m2'))"
      unfolding linked.simps by (elim conjE) (intro conjI)
    with 1 show ?thesis by blast
  next
    case 2
    from "2.prems"(1) have "linked V T c m2' rest" by simp
    from "2.IH"[OF this 2] show ?thesis .
  qed
qed

lemma threaded_step:
  "threaded m (step_events T c (a, m0, m1, acc, m2) @ tr) = (m1 = m \<and> threaded m2 tr)"
  by (simp add: step_events_def)

lemma linked_threaded:
  assumes same: "\<And>m. after_reset T c m = m"
  shows "linked V T c m steps \<Longrightarrow> threaded m (concat (map (step_events T c) steps))"
proof (induction steps arbitrary: m)
  case Nil
  show ?case by simp
next
  case (Cons s rest)
  obtain a m0 m1 acc m2 where s: "s = (a, m0, m1, acc, m2)"
    by (cases s)
  from Cons.prems have m0: "m0 = m" and m1: "m1 = after_reset T c m0"
    and lk: "linked V T c m2 rest"
    unfolding s by simp_all
  from m0 m1 same have m1': "m1 = m" by simp
  have th: "threaded m2 (concat (map (step_events T c) rest))"
    using Cons.IH[OF lk] .
  have "threaded m (step_events T c (a, m0, m1, acc, m2) @
                     concat (map (step_events T c) rest))"
    unfolding threaded_step using th m1' by simp
  then show ?case
    unfolding s by simp
qed

lemma threaded_setup:
  "\<forall>e\<in>set es. is_setup_event e \<and> \<not> is_reset_event e \<Longrightarrow>
   threaded m (es @ tr) = threaded m tr"
proof (induction es)
  case Nil
  show ?case by simp
next
  case (Cons e es)
  then show ?case by (cases e) simp_all
qed

lemma threaded_no_accuracy:
  "\<forall>e\<in>set tr. \<not> is_accuracy e \<Longrightarrow> threaded m tr"
proof (induction tr)
  case Nil
  show ?case by simp
next
  case (Cons e tr)
  then show ?case by (cases e) simp_all
qed


subsection \<open>Runs that complete\<close>

lemma select_model_valid:
  assumes "MODEL_ADAPTATION c = ''source'' \<or> MODEL_ADAPTATION c = ''norm'' \<or>
           MODEL_ADAPTATION c = ''tent''"
    and "MODEL_ADAPTATION c = ''tent'' \<longrightarrow> OPTIM_METHOD c = ''Adam'' \<or> OPTIM_METHOD c = ''SGD''"
  shows "\<exists>m0. fst (select_model T c base tr) = Inr (Some m0)"
proof -
  consider (s) "MODEL_ADAPTATION c = ''source''" | (n) "MODEL_ADAPTATION c = ''norm''"
    | (t) "MODEL_ADAPTATION c = ''tent''"
    using assms(1) by blast
  then show ?thesis
  proof cases
    case s
    show ?thesis unfolding select_model_source[OF s] by simp
  next
    case n
    show ?thesis unfolding select_model_norm[OF n] by simp
  next
    case t
    let ?p = "fst (tent_collect_params T (tent_configure_model T base))"
    from t assms(2) have "OPTIM_METHOD c = ''Adam'' \<or> OPTIM_METHOD c = ''SGD''"
      by simp
    from setup_optimizer_ok[OF this, of ?p] obtain opt where
      opt: "setup_optimizer c ?p = Inr opt"
      by blast
    show ?thesis unfolding select_model_tent[OF t opt] by simp
  qed
qed

lemma evaluate_valid:
  assumes boot1: "rewrite_keys (torch_load_net T) = Inr sd"
    and boot2: "load_state_dict T (LeNet5 T) sd = Inr base"
    and mode: "MODEL_ADAPTATION c = ''source'' \<or> MODEL_ADAPTATION c = ''norm'' \<or>
           MODEL_ADAPTATION c = ''tent''"
    and meth: "MODEL_ADAPTATION c = ''tent'' \<longrightarrow>
           OPTIM_METHOD c = ''Adam'' \<or> OPTIM_METHOD c = ''SGD''"
    and data: "MNIST_test V \<noteq> []"
  shows "fst (evaluate V T c) = Inr ()"
proof -
  let ?tr = "[Print ''==> Loading from checkpoint..'']"
  from select_model_valid[OF mode meth, of T base ?tr] obtain m0 where
    "fst (select_model T c base ?tr) = Inr (Some m0)"
    by blast
  then obtain tr' where sel: "select_model T c base ?tr = (Inr (Some m0), tr')"
    by (cases "select_model T c base ?tr") simp
  from sweep_steps[OF data, of "py_range 0 181 10" T c m0 tr'] obtain steps where
    "sweep V T c (py_range 0 181 10) (Some m0) tr' =
       (Inr (), tr' @ concat (map (step_events T c) steps))"
    by (elim exE conjE)
  then show ?thesis
    unfolding evaluate_boot[OF boot1 boot2] sel by simp
qed


lemma failed_reset_blocks:
  assumes "\<forall>s\<in>set steps. fst (snd (snd s)) = fst (snd s)"
  shows "concat (map (\<lambda>(a, m0, m1, acc, m2).
                  [Reset m0, Warning ''not resetting model'', Load a None,
                   Accuracy m1 b acc m2, Error_pct a (1 - acc)]) steps) =
          concat (map (\<lambda>(a, m, acc, m').
                            [Reset m, Warning ''not resetting model'', Load a None,
                             Accuracy m b acc m', Error_pct a (1 - acc)])
                       (map (\<lambda>(a, m0, m1, acc, m2). (a, m1, acc, m2)) steps))"
  using assms
proof (induction steps)
  case Nil
  show ?case by simp
next
  case (Cons s steps)
  obtain a m0 m1 acc m2 where s: "s = (a, m0, m1, acc, m2)"
    by (cases s)
  from Cons.prems have "m1 = m0" and rest: "\<forall>s\<in>set steps. fst (snd (snd s)) = fst (snd s)"
    unfolding s by simp_all
  with Cons.IH[OF rest] show ?case
    unfolding s by simp
qed


lemma evaluate_returns:
  assumes "rewrite_keys (torch_load_net T) = Inr sd \<and>
      load_state_dict T (LeNet5 T) sd = Inr base \<and>
      (MODEL_ADAPTATION c = ''source'' \<or> MODEL_ADAPTATION c = ''norm'' \<or>
       MODEL_ADAPTATION c = ''tent'' \<and>
       (OPTIM_METHOD c = ''Adam'' \<or> OPTIM_METHOD c = ''SGD'')) \<and>
      MNIST_test V \<noteq> []"
  shows "fst (evaluate V T c) = Inr ()"
proof -
  from assms have b1: "rewrite_keys (torch_load_net T) = Inr sd"
    and b2: "load_state_dict T (LeNet5 T) sd = Inr base"
    and md: "MODEL_ADAPTATION c = ''source'' \<or> MODEL_ADAPTATION c = ''norm'' \<or>
             MODEL_ADAPTATION c = ''tent''"
    and mt: "MODEL_ADAPTATION c = ''tent'' \<longrightarrow>
             OPTIM_METHOD c = ''Adam'' \<or> OPTIM_METHOD c = ''SGD''"
    and dt: "MNIST_test V \<noteq> []"
    by auto
  show ?thesis
    using b1 b2 md mt dt by (rule evaluate_valid)
qed


section \<open>The loader: cap, order, alignment\<close>

text \<open>
  Claim C1. For every rotation and every cap \<open>m\<close> with \<open>0 < m\<close> not exceeding the size of
  the test split: the capped call accumulates whole batches of the loader, namely the
  first \<open>\<lceil>m / 100\<rceil> + 1\<close> batches of the uncapped accumulation (one batch more than the
  cap needs; all of the split when it is shorter); what it returns is the concatenation
  \<open>A\<close>, \<open>B\<close> of these batches cut by the slice \<open>[:m]\<close>; both returned sequences have
  length exactly \<open>m\<close>; and they are the first \<open>m\<close> entries of \<open>X\<close>, \<open>Y\<close>, the
  concatenation of the whole uncapped accumulation, which is what the uncapped call
  returns.
\<close>

theorem load_cifar_r_cap:
  assumes "0 < m" and "m \<le> int (length (MNIST_test V))"
  shows "\<exists>X Y A B xs ys.
     torch_cat (fst (accumulated V rotation None)) = Inr X \<and>
     torch_cat (snd (accumulated V rotation None)) = Inr Y \<and>
     load_cifar_r V rotation None = Inr (X, Y) \<and>
     accumulated V rotation (Some m) =
       (take (Suc (nat ((m + 99) div 100))) (fst (accumulated V rotation None)),
        take (Suc (nat ((m + 99) div 100))) (snd (accumulated V rotation None))) \<and>
     torch_cat (fst (accumulated V rotation (Some m))) = Inr A \<and>
     torch_cat (snd (accumulated V rotation (Some m))) = Inr B \<and>
     length A = min (length (MNIST_test V)) (100 * Suc (nat ((m + 99) div 100))) \<and>
     length B = min (length (MNIST_test V)) (100 * Suc (nat ((m + 99) div 100))) \<and>
     load_cifar_r V rotation (Some m) = Inr (xs, ys) \<and>
     xs = py_slice_to m A \<and> ys = py_slice_to m B \<and>
     int (length xs) = m \<and> int (length ys) = m \<and>
     xs = take (nat m) X \<and> ys = take (nat m) Y"
proof -
  let ?D = "MNIST V (transform_of rotation)"
  let ?k = "Suc (nat ((m + 99) div 100)) * 100"
  let ?X = "map fst ?D" and ?Y = "map snd ?D"
  let ?A = "map fst (take ?k ?D)" and ?B = "map snd (take ?k ?D)"
  from assms have ne: "MNIST_test V \<noteq> []" by auto
  have len: "nat m \<le> length ?D" using assms by (simp add: length_MNIST)
  have bound: "nat m \<le> ?k" using assms(1) by (rule stop_index_bound)
  have slice: "py_slice_to m (map f (take ?k ?D)) = take (nat m) (map f ?D)" for f :: "'a \<times> 'b \<Rightarrow> 'c"
    using assms(1) bound by (simp add: py_slice_to_def take_map min_def)
  have cX: "torch_cat (fst (accumulated V rotation None)) = Inr ?X"
    by (rule cat_x_None[OF ne])
  have cY: "torch_cat (snd (accumulated V rotation None)) = Inr ?Y"
    by (rule cat_y_None[OF ne])
  have cA: "torch_cat (fst (accumulated V rotation (Some m))) = Inr ?A"
    by (rule cat_x_Some[OF ne])
  have cB: "torch_cat (snd (accumulated V rotation (Some m))) = Inr ?B"
    by (rule cat_y_Some[OF ne])
  have lA: "length ?A = min (length (MNIST_test V)) (100 * Suc (nat ((m + 99) div 100)))"
    by (simp add: length_MNIST mult.commute)
  have lB: "length ?B = min (length (MNIST_test V)) (100 * Suc (nat ((m + 99) div 100)))"
    by (simp add: length_MNIST mult.commute)
  have L0: "load_cifar_r V rotation None = Inr (?X, ?Y)"
    by (rule load_cifar_r_None[OF ne])
  have L1: "load_cifar_r V rotation (Some m) = Inr (py_slice_to m ?A, py_slice_to m ?B)"
    by (rule load_cifar_r_Some[OF ne])
  have acc: "accumulated V rotation (Some m) =
       (take (Suc (nat ((m + 99) div 100))) (fst (accumulated V rotation None)),
        take (Suc (nat ((m + 99) div 100))) (snd (accumulated V rotation None)))"
    by (rule accumulated_Some)
  have n1: "int (length (py_slice_to m ?A)) = m"
    unfolding slice using len assms(1) by simp
  have n2: "int (length (py_slice_to m ?B)) = m"
    unfolding slice using len assms(1) by simp
  have p1: "py_slice_to m ?A = take (nat m) ?X"
    by (rule slice)
  have p2: "py_slice_to m ?B = take (nat m) ?Y"
    by (rule slice)
  show ?thesis
    by (rule exI[of _ ?X], rule exI[of _ ?Y], rule exI[of _ ?A], rule exI[of _ ?B],
        rule exI[of _ "py_slice_to m ?A"], rule exI[of _ "py_slice_to m ?B"])
       (intro conjI cX cY L0 acc cA cB lA lB L1 refl n1 n2 p1 p2)
qed

text \<open>
  The same at a split of 450 examples, rotation 30 and cap 150: the uncapped accumulation
  holds five batches, the capped one stops after three, 300 examples, and the slice
  keeps 150 of them.
\<close>

theorem load_cifar_r_cap_witness:
  "(0::int) < 150 \<and> (150::int) \<le> int (length (MNIST_test (toy_vision 450))) \<and>
   length (fst (accumulated (toy_vision 450) 30 None)) = 5 \<and>
   length (fst (accumulated (toy_vision 450) 30 (Some 150))) = 3 \<and>
   (\<exists>X Y A B xs ys.
     torch_cat (fst (accumulated (toy_vision 450) 30 None)) = Inr X \<and>
     torch_cat (snd (accumulated (toy_vision 450) 30 None)) = Inr Y \<and>
     load_cifar_r (toy_vision 450) 30 None = Inr (X, Y) \<and>
     accumulated (toy_vision 450) 30 (Some 150) =
       (take (Suc (nat ((150 + 99) div 100))) (fst (accumulated (toy_vision 450) 30 None)),
        take (Suc (nat ((150 + 99) div 100))) (snd (accumulated (toy_vision 450) 30 None))) \<and>
     torch_cat (fst (accumulated (toy_vision 450) 30 (Some 150))) = Inr A \<and>
     torch_cat (snd (accumulated (toy_vision 450) 30 (Some 150))) = Inr B \<and>
     length A = min (length (MNIST_test (toy_vision 450))) (100 * Suc (nat ((150 + 99) div 100))) \<and>
     length B = min (length (MNIST_test (toy_vision 450))) (100 * Suc (nat ((150 + 99) div 100))) \<and>
     load_cifar_r (toy_vision 450) 30 (Some 150) = Inr (xs, ys) \<and>
     xs = py_slice_to 150 A \<and> ys = py_slice_to 150 B \<and>
     int (length xs) = 150 \<and> int (length ys) = 150 \<and>
     xs = take (nat 150) X \<and> ys = take (nat 150) Y)"
proof -
  have h1: "(0::int) < 150" by simp
  have h2: "(150::int) \<le> int (length (MNIST_test (toy_vision 450)))"
    by (simp add: toy_vision_def)
  have n5: "length (fst (accumulated (toy_vision 450) 30 None)) = 5"
    by code_simp
  have n3: "length (fst (accumulated (toy_vision 450) 30 (Some 150))) = 3"
    by code_simp
  show ?thesis
    by (rule conjI[OF h1 conjI[OF h2 conjI[OF n5 conjI[OF n3 load_cifar_r_cap[OF h1 h2, of 30]]]]])
qed


text \<open>
  Claim C9. On a non-empty test split, for every rotation and every value of
  \<open>n_examples\<close> (unset or any integer) the call returns two sequences of equal length.
  The two concatenated accumulations have equal length, the cap cuts both with the same
  slice, and the returned pairs are still the dataset's pairs: image \<open>i\<close> sits beside
  label \<open>i\<close>.
\<close>

theorem load_cifar_r_aligned:
  assumes "MNIST_test V \<noteq> []"
  shows "\<exists>X Y xs ys.
    torch_cat (fst (accumulated V rotation n_examples)) = Inr X \<and>
    torch_cat (snd (accumulated V rotation n_examples)) = Inr Y \<and>
    length X = length Y \<and>
    load_cifar_r V rotation n_examples = Inr (xs, ys) \<and>
    (case n_examples of
       None \<Rightarrow> xs = X \<and> ys = Y
     | Some n \<Rightarrow> xs = py_slice_to n X \<and> ys = py_slice_to n Y) \<and>
    length xs = length ys \<and>
    zip xs ys = take (length xs) (MNIST V (transform_of rotation))"
  using assms by (rule load_cifar_r_shape)

text \<open>The same at a split of 250 examples, rotation 30 and cap 150.\<close>

theorem load_cifar_r_aligned_witness:
  "MNIST_test (toy_vision 250) \<noteq> [] \<and>
   (\<exists>X Y xs ys.
    torch_cat (fst (accumulated (toy_vision 250) 30 (Some 150))) = Inr X \<and>
    torch_cat (snd (accumulated (toy_vision 250) 30 (Some 150))) = Inr Y \<and>
    length X = length Y \<and>
    load_cifar_r (toy_vision 250) 30 (Some 150) = Inr (xs, ys) \<and>
    (case Some (150::int) of
       None \<Rightarrow> xs = X \<and> ys = Y
     | Some n \<Rightarrow> xs = py_slice_to n X \<and> ys = py_slice_to n Y) \<and>
    length xs = length ys \<and>
    zip xs ys = take (length xs) (MNIST (toy_vision 250) (transform_of 30)))"
proof -
  have h: "MNIST_test (toy_vision 250) \<noteq> []"
    by (simp add: toy_vision_def)
  show ?thesis
    by (rule conjI[OF h load_cifar_r_aligned[OF h, of 30 "Some 150"]])
qed


text \<open>
  Claim C8. The result of the loader does not depend on the random generator a shuffling
  sampler would read: two calls with the same rotation and cap under any two generator
  states return the same pair of sequences (or raise the same exception). Whatever is
  returned is a prefix of the test split in its stored order, each image passed through
  the transform.
\<close>

theorem load_cifar_r_deterministic:
  "load_cifar_r (V\<lparr>randperm := g\<rparr>) rotation n = load_cifar_r (V\<lparr>randperm := g'\<rparr>) rotation n \<and>
   (\<forall>xs ys. load_cifar_r V rotation n = Inr (xs, ys) \<longrightarrow>
      xs = take (length xs)
             (map (\<lambda>(img, target). Compose_call V (transform_of rotation) img) (MNIST_test V)) \<and>
      ys = take (length ys) (map snd (MNIST_test V)))"
proof (intro conjI allI impI)
  show "load_cifar_r (V\<lparr>randperm := g\<rparr>) rotation n = load_cifar_r (V\<lparr>randperm := g'\<rparr>) rotation n"
    by (simp only: load_cifar_r_randperm)
next
  fix xs ys
  assume r: "load_cifar_r V rotation n = Inr (xs, ys)"
  show "xs = take (length xs)
             (map (\<lambda>(img, target). Compose_call V (transform_of rotation) img) (MNIST_test V))"
    using load_cifar_r_prefix(1)[OF r] by (simp only: MNIST_fst)
  show "ys = take (length ys) (map snd (MNIST_test V))"
    using load_cifar_r_prefix(2)[OF r] by (simp only: MNIST_snd)
qed

text \<open>The same at a split of three examples and rotation 30, under two different generators.\<close>

theorem load_cifar_r_deterministic_witness:
  "load_cifar_r ((toy_vision 3)\<lparr>randperm := (\<lambda>n. [])\<rparr>) 30 None =
     load_cifar_r ((toy_vision 3)\<lparr>randperm := (\<lambda>n. rev [0..<n])\<rparr>) 30 None \<and>
   load_cifar_r (toy_vision 3) 30 None = Inr ([32, 34, 36], [0, 1, 2]) \<and>
   [32, 34, 36] =
     take (length [32, 34, 36 :: int])
       (map (\<lambda>(img, target). Compose_call (toy_vision 3) (transform_of 30) img)
          (MNIST_test (toy_vision 3))) \<and>
   [0, 1, 2] = take (length [0, 1, 2 :: nat]) (map snd (MNIST_test (toy_vision 3)))"
proof -
  have h: "load_cifar_r (toy_vision 3) 30 None = Inr ([32, 34, 36], [0, 1, 2])"
    by code_simp
  note T = load_cifar_r_deterministic[where V = "toy_vision 3" and g = "\<lambda>n. []"
        and g' = "\<lambda>n. rev [0..<n]" and rotation = 30 and n = None]
  have pq: "[32, 34, 36] =
     take (length [32, 34, 36 :: int])
       (map (\<lambda>(img, target). Compose_call (toy_vision 3) (transform_of 30) img)
          (MNIST_test (toy_vision 3))) \<and>
   [0, 1, 2] = take (length [0, 1, 2 :: nat]) (map snd (MNIST_test (toy_vision 3)))"
    by (rule conjunct2[OF T, rule_format, OF h])
  show ?thesis
    by (rule conjI[OF conjunct1[OF T] conjI[OF h pq]])
qed

section \<open>The order of normalization and rotation\<close>

text \<open>
  Claim C7 says that every image the loader returns equals
  \<open>rotate (normalize (to_tensor raw))\<close> and never \<open>normalize (rotate (to_tensor raw))\<close>.
  The second half fails wherever the rotation commutes with the normalization: with a
  rotation that leaves the pixels in place (angle 0) or only permutes them (angle 180),
  the returned image is also the value of normalizing after rotating.
\<close>

theorem normalize_rotate_coincide:
  "load_cifar_r pixel_vision 0 None = Inr ([[- 1307 / 3081, 8693 / 3081]], [7]) \<and>
   [[- 1307 / 3081, 8693 / 3081]] ! 0 =
     Normalize pixel_vision [1307 / 10000] [3081 / 10000]
       (TF_rotate pixel_vision (ToTensor pixel_vision (fst (MNIST_test pixel_vision ! 0))) 0) \<and>
   load_cifar_r pixel_vision 180 None = Inr ([[8693 / 3081, - 1307 / 3081]], [7]) \<and>
   [[8693 / 3081, - 1307 / 3081]] ! 0 =
     Normalize pixel_vision [1307 / 10000] [3081 / 10000]
       (TF_rotate pixel_vision (ToTensor pixel_vision (fst (MNIST_test pixel_vision ! 0))) 180)"
  by code_simp

text \<open>
  Claim C7, amended. Every image the loader returns is the raw image of the same index
  converted to a tensor, then normalized with mean 0.1307 and standard deviation 0.3081,
  then rotated by the angle; on a non-empty split the uncapped call returns exactly
  these images for the whole split, with the labels of the split; in the pipeline the
  normalization is entry 1 and the rotation entry 2. Nothing is said about the value of
  the other order. The library functions are parameters.
\<close>

theorem normalize_before_rotate:
  "(load_cifar_r V rotation n = Inr (xs, ys) \<and> i < length xs \<longrightarrow>
      xs ! i =
        TF_rotate V
          (Normalize V [1307 / 10000] [3081 / 10000] (ToTensor V (fst (MNIST_test V ! i))))
          rotation) \<and>
   (MNIST_test V \<noteq> [] \<longrightarrow>
      load_cifar_r V rotation None =
        Inr (map (\<lambda>(img, target).
                    TF_rotate V
                      (Normalize V [1307 / 10000] [3081 / 10000] (ToTensor V img)) rotation)
               (MNIST_test V),
             map snd (MNIST_test V))) \<and>
   transform_of rotation ! 1 = Normalize_t [1307 / 10000] [3081 / 10000] \<and>
   transform_of rotation ! 2 = Rotation_t (RotationTransform rotation)"
proof -
  have p1: "xs ! i =
        TF_rotate V
          (Normalize V [1307 / 10000] [3081 / 10000] (ToTensor V (fst (MNIST_test V ! i))))
          rotation"
    if h: "load_cifar_r V rotation n = Inr (xs, ys) \<and> i < length xs"
  proof -
    from h have ld: "load_cifar_r V rotation n = Inr (xs, ys)" and il: "i < length xs"
      by simp_all
    let ?D = "map (\<lambda>(img, target). Compose_call V (transform_of rotation) img) (MNIST_test V)"
    have xs: "xs = take (length xs) ?D"
      using load_cifar_r_prefix(1)[OF ld] by (simp only: MNIST_fst)
    have "length xs = length (take (length xs) ?D)"
      by (rule arg_cong[where f = length, OF xs])
    then have "length xs = min (length xs) (length ?D)"
      by (simp only: length_take)
    then have "length xs \<le> length ?D"
      by linarith
    then have i: "i < length (MNIST_test V)"
      using il by simp
    have "xs ! i = take (length xs) ?D ! i"
      by (rule arg_cong[where f = "\<lambda>l. l ! i", OF xs])
    also have "\<dots> = ?D ! i"
      using il by (rule nth_take)
    also have "\<dots> = Compose_call V (transform_of rotation) (fst (MNIST_test V ! i))"
      using i by (simp add: case_prod_beta)
    finally show ?thesis
      by (simp only: Compose_transform_of)
  qed
  have p2: "load_cifar_r V rotation None =
        Inr (map (\<lambda>(img, target).
                    TF_rotate V
                      (Normalize V [1307 / 10000] [3081 / 10000] (ToTensor V img)) rotation)
               (MNIST_test V),
             map snd (MNIST_test V))"
    if ne: "MNIST_test V \<noteq> []"
    unfolding load_cifar_r_None[OF ne] MNIST_fst MNIST_snd Compose_transform_of ..
  have p3: "transform_of rotation ! 1 = Normalize_t [1307 / 10000] [3081 / 10000]"
    by (simp add: transform_of_def)
  have p4: "transform_of rotation ! 2 = Rotation_t (RotationTransform rotation)"
    by (simp add: transform_of_def)
  show ?thesis
    by (rule conjI[OF impI[OF p1] conjI[OF impI[OF p2] conjI[OF p3 p4]]])
qed

text \<open>
  The same at the pixel instance, rotation 10, image 0: the rotation fills with 0, and
  the returned image is the rotated normalized one, not the normalized rotated one.
\<close>

theorem normalize_before_rotate_witness:
  "load_cifar_r pixel_vision 10 None = Inr ([[0, 0]], [7]) \<and>
   (0::nat) < length [[0, 0 :: real]] \<and>
   MNIST_test pixel_vision \<noteq> [] \<and>
   [[0, 0]] ! 0 =
     TF_rotate pixel_vision
       (Normalize pixel_vision [1307 / 10000] [3081 / 10000]
          (ToTensor pixel_vision (fst (MNIST_test pixel_vision ! 0)))) 10 \<and>
   load_cifar_r pixel_vision 10 None =
        Inr (map (\<lambda>(img, target).
                    TF_rotate pixel_vision
                      (Normalize pixel_vision [1307 / 10000] [3081 / 10000]
                         (ToTensor pixel_vision img)) 10)
               (MNIST_test pixel_vision),
             map snd (MNIST_test pixel_vision)) \<and>
   transform_of 10 ! 1 = Normalize_t [1307 / 10000] [3081 / 10000] \<and>
   transform_of 10 ! 2 = Rotation_t (RotationTransform 10) \<and>
   [[0, 0]] ! 0 \<noteq>
     Normalize pixel_vision [1307 / 10000] [3081 / 10000]
       (TF_rotate pixel_vision (ToTensor pixel_vision (fst (MNIST_test pixel_vision ! 0))) 10)"
proof -
  have h1: "load_cifar_r pixel_vision 10 None = Inr ([[0, 0]], [7])"
    by code_simp
  have h2: "(0::nat) < length [[0, 0 :: real]]"
    by simp
  have h3: "MNIST_test pixel_vision \<noteq> []"
    by (simp add: pixel_vision_def)
  have d: "[[0, 0]] ! 0 \<noteq>
     Normalize pixel_vision [1307 / 10000] [3081 / 10000]
       (TF_rotate pixel_vision (ToTensor pixel_vision (fst (MNIST_test pixel_vision ! 0))) 10)"
    by (simp add: pixel_vision_def)
  note T = normalize_before_rotate[of pixel_vision 10 None "[[0, 0]]" "[7]" 0]
  note a = mp[OF conjunct1[OF T] conjI[OF h1 h2]]
  note b = mp[OF conjunct1[OF conjunct2[OF T]] h3]
  note c = conjunct2[OF conjunct2[OF T]]
  show ?thesis
    by (rule conjI[OF h1 conjI[OF h2 conjI[OF h3 conjI[OF a conjI[OF b
          conjI[OF conjunct1[OF c] conjI[OF conjunct2[OF c] d]]]]]]])
qed


section \<open>The key rewrite is not idempotent on every key\<close>

text \<open>
  Claim C2 says that rewriting a key twice gives the same string as rewriting it once,
  for every key. The replacement removes every occurrence of \<open>module.\<close> in one scan from
  the left, and the pieces left over can join into a new occurrence: the key
  \<open>mmodule.odule.weight\<close> becomes \<open>module.weight\<close>, and a second rewrite gives
  \<open>weight\<close>. The same on a one-entry state dict.
\<close>

theorem new_key_not_idempotent:
  "new_key ''mmodule.odule.weight'' = ''module.weight'' \<and>
   new_key (new_key ''mmodule.odule.weight'') = ''weight'' \<and>
   new_key (new_key ''mmodule.odule.weight'') \<noteq> new_key ''mmodule.odule.weight'' \<and>
   rewrite_keys [(''mmodule.odule.weight'', 7 :: nat)] = Inr [(''module.weight'', 7)] \<and>
   rewrite_keys [(''module.weight'', 7 :: nat)] = Inr [(''weight'', 7)]"
  by code_simp

text \<open>
  Claim C2, amended. Rewriting a key twice gives the same string as rewriting it once
  exactly when the once-rewritten key contains no occurrence of \<open>module.\<close>; and on a
  state dict with distinct keys whose rewritten keys all contain no occurrence of
  \<open>module.\<close>, both passes run without raising and the second pass leaves the
  key-to-tensor mapping as the first pass made it.
\<close>

theorem new_key_idempotent_iff:
  "(new_key (new_key k) = new_key k \<longleftrightarrow> \<not> sublist ''module.'' (new_key k)) \<and>
   (distinct (map fst sd) \<and> (\<forall>k\<in>fst ` set sd. \<not> sublist ''module.'' (new_key k)) \<longrightarrow>
      (\<exists>sd1 sd2. rewrite_keys sd = Inr sd1 \<and> rewrite_keys sd1 = Inr sd2 \<and>
         map_of sd2 = map_of sd1))"
  using rewrite_keys_twice[of sd] by (simp add: new_key_fixed_iff)

text \<open>The same at the keys \<open>module.conv1.weight\<close> and \<open>module.conv1.bias\<close>.\<close>

theorem new_key_idempotent_iff_witness:
  "new_key (new_key ''module.conv1.weight'') = new_key ''module.conv1.weight'' \<and>
   \<not> sublist ''module.'' (new_key ''module.conv1.weight'') \<and>
   distinct (map fst [(''module.conv1.weight'', 1 :: nat), (''module.conv1.bias'', 2)]) \<and>
   \<not> sublist ''module.'' (new_key ''module.conv1.bias'') \<and>
   (\<exists>sd1 sd2.
      rewrite_keys [(''module.conv1.weight'', 1 :: nat), (''module.conv1.bias'', 2)] = Inr sd1 \<and>
      rewrite_keys sd1 = Inr sd2 \<and> map_of sd2 = map_of sd1)"
proof -
  let ?sd = "[(''module.conv1.weight'', 1 :: nat), (''module.conv1.bias'', 2)]"
  note T = new_key_idempotent_iff[of "''module.conv1.weight''" ?sd]
  have h1: "\<not> sublist ''module.'' (new_key ''module.conv1.weight'')"
    by code_simp
  have h2: "distinct (map fst ?sd)"
    by code_simp
  have h3': "\<not> sublist ''module.'' (new_key ''module.conv1.bias'')"
    by code_simp
  have h3: "\<forall>k\<in>fst ` set ?sd. \<not> sublist ''module.'' (new_key k)"
    using h1 h3' by simp
  have a: "new_key (new_key ''module.conv1.weight'') = new_key ''module.conv1.weight''"
    using conjunct1[OF T] h1 by (rule iffD2)
  have b: "\<exists>sd1 sd2. rewrite_keys ?sd = Inr sd1 \<and> rewrite_keys sd1 = Inr sd2 \<and>
      map_of sd2 = map_of sd1"
    by (rule mp[OF conjunct2[OF T] conjI[OF h2 h3]])
  show ?thesis
    by (rule conjI[OF a conjI[OF h1 conjI[OF h2 conjI[OF h3' b]]]])
qed

section \<open>The sweep over the angles\<close>





section \<open>Resetting between angles\<close>

text \<open>
  Claim C4. With \<open>MODEL.EVOLVE\<close> set, no run ever calls \<open>reset\<close> or logs one of the two
  lines of the \<open>try\<close> block, and every accuracy call runs on the state the previous
  accuracy call left: the adaptation state persists across the sweep. With
  \<open>MODEL.EVOLVE\<close> false, a run that returns normally calls \<open>reset\<close> exactly once
  before each angle's load and accuracy call, and the accuracy call runs on the state
  the reset produced, or on the unchanged state when the reset raised. A run that
  returns normally makes nineteen accuracy calls; a run that raises makes none, so
  there is no evaluation that a reset could have preceded. A run returns normally
  whenever the checkpoint loads, the mode is source, norm or tent (in tent mode with the
  optimizer Adam or SGD) and the test split is not empty.
\<close>

theorem reset_iff_not_evolve:
  "(MODEL_EVOLVE c \<longrightarrow>
      filter is_reset_event (snd (evaluate V T c)) = [] \<and>
      (\<exists>m0. threaded m0 (snd (evaluate V T c)))) \<and>
   (\<not> MODEL_EVOLVE c \<and> fst (evaluate V T c) = Inr () \<longrightarrow>
      (\<exists>steps.
         map fst steps =
           [0, 10, 20, 30, 40, 50, 60, 70, 80, 90, 100, 110, 120, 130, 140, 150, 160, 170,
            180] \<and>
         filter (\<lambda>e. is_reset_or_load e \<or> is_accuracy e) (snd (evaluate V T c)) =
           concat (map (\<lambda>(a, m0, m1, acc, m2).
                          [Reset m0, Load a None, Accuracy m1 (TEST_BATCH_SIZE c) acc m2])
                     steps) \<and>
         list_all (\<lambda>(a, m0, m1, acc, m2).
                     m1 = (case model_reset T m0 of None \<Rightarrow> m0 | Some m' \<Rightarrow> m')) steps)) \<and>
   (fst (evaluate V T c) = Inr () \<longrightarrow>
      length (filter is_accuracy (snd (evaluate V T c))) = 19) \<and>
   (fst (evaluate V T c) \<noteq> Inr () \<longrightarrow>
      filter is_accuracy (snd (evaluate V T c)) = []) \<and>
   (rewrite_keys (torch_load_net T) = Inr sd \<and>
    load_state_dict T (LeNet5 T) sd = Inr base \<and>
    (MODEL_ADAPTATION c = ''source'' \<or> MODEL_ADAPTATION c = ''norm'' \<or>
     MODEL_ADAPTATION c = ''tent'' \<and>
     (OPTIM_METHOD c = ''Adam'' \<or> OPTIM_METHOD c = ''SGD'')) \<and>
    MNIST_test V \<noteq> [] \<longrightarrow>
    fst (evaluate V T c) = Inr ())"
proof -
  have p1: "filter is_reset_event (snd (evaluate V T c)) = [] \<and>
      (\<exists>m0. threaded m0 (snd (evaluate V T c)))" if ev: "MODEL_EVOLVE c"
  proof (cases "fst (evaluate V T c) = Inr ()")
    case True
    have same: "after_reset T c m = m" for m
      using ev by (simp add: after_reset_def)
    from evaluate_completed[OF True] obtain m0 es steps where
      tr: "snd (evaluate V T c) =
              (Print ''==> Loading from checkpoint..'' # es) @
                       concat (map (step_events T c) steps)"
      and es: "\<forall>e\<in>set es. is_setup_event e \<and> \<not> is_reset_event e"
      and lk: "linked V T c m0 steps"
      by (elim exE conjE)
    have es': "\<forall>e\<in>set (Print ''==> Loading from checkpoint..'' # es).
                 is_setup_event e \<and> \<not> is_reset_event e"
      using es by simp
    have pre: "filter is_reset_event (Print ''==> Loading from checkpoint..'' # es) = []"
      using es' by (intro filter_none) blast
    have a: "filter is_reset_event (snd (evaluate V T c)) = []"
      unfolding tr filter_append pre filter_reset_steps_evolve[OF ev] by simp
    have "threaded m0 (concat (map (step_events T c) steps))"
      using same lk by (rule linked_threaded)
    then have "threaded m0 (snd (evaluate V T c))"
      unfolding tr threaded_setup[OF es'] .
    with a show ?thesis by blast
  next
    case False
    from evaluate_aborted[OF False] ev obtain es tail where
      tr: "snd (evaluate V T c) = (Print ''==> Loading from checkpoint..'' # es) @ tail"
      and es: "\<forall>e\<in>set es. is_setup_event e \<and> \<not> is_reset_event e"
      and t1: "\<forall>e\<in>set tail. \<not> is_accuracy e"
      and t2: "\<forall>e\<in>set tail. \<not> is_reset_event e"
      by (elim exE conjE) blast
    have es': "\<forall>e\<in>set (Print ''==> Loading from checkpoint..'' # es).
                 is_setup_event e \<and> \<not> is_reset_event e"
      using es by simp
    have "\<forall>e\<in>set (snd (evaluate V T c)). \<not> is_reset_event e"
      unfolding tr using es' t2 by auto
    then have a: "filter is_reset_event (snd (evaluate V T c)) = []"
      by (rule filter_none)
    have "threaded undefined tail"
      using t1 by (rule threaded_no_accuracy)
    then have "threaded undefined (snd (evaluate V T c))"
      unfolding tr threaded_setup[OF es'] .
    with a show ?thesis by blast
  qed
  have p2: "\<exists>steps.
         map fst steps =
           [0, 10, 20, 30, 40, 50, 60, 70, 80, 90, 100, 110, 120, 130, 140, 150, 160, 170,
            180] \<and>
         filter (\<lambda>e. is_reset_or_load e \<or> is_accuracy e) (snd (evaluate V T c)) =
           concat (map (\<lambda>(a, m0, m1, acc, m2).
                          [Reset m0, Load a None, Accuracy m1 (TEST_BATCH_SIZE c) acc m2])
                     steps) \<and>
         list_all (\<lambda>(a, m0, m1, acc, m2).
                     m1 = (case model_reset T m0 of None \<Rightarrow> m0 | Some m' \<Rightarrow> m')) steps"
    if h: "\<not> MODEL_EVOLVE c \<and> fst (evaluate V T c) = Inr ()"
  proof -
  from h have ne: "\<not> MODEL_EVOLVE c" and ok: "fst (evaluate V T c) = Inr ()"
    by simp_all
  from evaluate_completed[OF ok] obtain m0 es steps where
    fs: "map fst steps =
       [0, 10, 20, 30, 40, 50, 60, 70, 80, 90, 100, 110, 120, 130, 140, 150, 160, 170, 180]"
    and tr: "snd (evaluate V T c) =
              (Print ''==> Loading from checkpoint..'' # es) @
                       concat (map (step_events T c) steps)"
    and es: "\<forall>e\<in>set es. is_setup_event e \<and> \<not> is_reset_event e"
    and lk: "linked V T c m0 steps"
    by (elim exE conjE)
  have pre: "filter (\<lambda>e. is_reset_or_load e \<or> is_accuracy e)
               (Print ''==> Loading from checkpoint..'' # es) = []"
    using es by (intro filter_none) (auto dest: setup_not_accuracy setup_not_reset_or_load)
  have b: "filter (\<lambda>e. is_reset_or_load e \<or> is_accuracy e) (snd (evaluate V T c)) =
           concat (map (\<lambda>(a, m0, m1, acc, m2).
                          [Reset m0, Load a None, Accuracy m1 (TEST_BATCH_SIZE c) acc m2])
                     steps)"
    unfolding tr filter_append pre filter_reset_load_acc_steps[OF ne] by simp
  have c: "list_all (\<lambda>(a, m0, m1, acc, m2).
                     m1 = (case model_reset T m0 of None \<Rightarrow> m0 | Some m' \<Rightarrow> m')) steps"
    unfolding list_all_iff
  proof (clarify)
    fix a m0' m1 acc m2
    assume "(a, m0', m1, acc, m2) \<in> set steps"
    from linked_member[OF lk this] have "m1 = after_reset T c m0'" by (rule conjunct1)
    then show "m1 = (case model_reset T m0' of None \<Rightarrow> m0' | Some m' \<Rightarrow> m')"
      using ne by (simp add: after_reset_def)
  qed
  show ?thesis
    by (rule exI[of _ steps]) (intro conjI fs b c)
  qed
  have p3: "length (filter is_accuracy (snd (evaluate V T c))) = 19"
    if ok: "fst (evaluate V T c) = Inr ()"
  proof -
  from evaluate_completed[OF ok] obtain m0 es steps where
    fs: "map fst steps =
       [0, 10, 20, 30, 40, 50, 60, 70, 80, 90, 100, 110, 120, 130, 140, 150, 160, 170, 180]"
    and tr: "snd (evaluate V T c) =
              (Print ''==> Loading from checkpoint..'' # es) @
                       concat (map (step_events T c) steps)"
    and es: "\<forall>e\<in>set es. is_setup_event e \<and> \<not> is_reset_event e"
    by (elim exE conjE)
  have pre: "filter is_accuracy (Print ''==> Loading from checkpoint..'' # es) = []"
    using es by (intro filter_none) (auto dest: setup_not_accuracy)
  have "length steps = length (map fst steps)" by simp
  then have n: "length steps = 19" unfolding fs by simp
  show ?thesis
    unfolding tr filter_append pre using filter_accuracy_steps[of T c steps] n by simp
  qed
  have p4: "filter is_accuracy (snd (evaluate V T c)) = []"
    if bad: "fst (evaluate V T c) \<noteq> Inr ()"
  proof -
  from evaluate_aborted[OF bad] obtain es tail where
    tr: "snd (evaluate V T c) = (Print ''==> Loading from checkpoint..'' # es) @ tail"
    and es: "\<forall>e\<in>set es. is_setup_event e \<and> \<not> is_reset_event e"
    and t1: "\<forall>e\<in>set tail. \<not> is_accuracy e"
    by (elim exE conjE)
  have "\<forall>e\<in>set (snd (evaluate V T c)). \<not> is_accuracy e"
    unfolding tr using es t1 by (auto dest: setup_not_accuracy)
  then show ?thesis
    by (rule filter_none)
  qed
  show ?thesis
    by (rule conjI[OF impI[OF p1] conjI[OF impI[OF p2] conjI[OF impI[OF p3]
          conjI[OF impI[OF p4] impI[OF evaluate_returns]]]]])
qed

text \<open>
  The same on the small instance in tent mode with a wrapper that can reset: once with
  \<open>EVOLVE\<close> set, once without; and in an unknown mode, where the run raises.
\<close>

theorem reset_iff_not_evolve_witness:
  "MODEL_EVOLVE (toy_cfg ''tent'' True ''Adam'') \<and>
   filter is_reset_event
     (snd (evaluate (toy_vision 3) (toy_torch True) (toy_cfg ''tent'' True ''Adam''))) = [] \<and>
   (\<exists>m0. threaded m0
     (snd (evaluate (toy_vision 3) (toy_torch True) (toy_cfg ''tent'' True ''Adam'')))) \<and>
   \<not> MODEL_EVOLVE (toy_cfg ''tent'' False ''Adam'') \<and>
   fst (evaluate (toy_vision 3) (toy_torch True) (toy_cfg ''tent'' False ''Adam'')) = Inr () \<and>
   (\<exists>steps.
      map fst steps =
        [0, 10, 20, 30, 40, 50, 60, 70, 80, 90, 100, 110, 120, 130, 140, 150, 160, 170,
         180] \<and>
      filter (\<lambda>e. is_reset_or_load e \<or> is_accuracy e)
        (snd (evaluate (toy_vision 3) (toy_torch True) (toy_cfg ''tent'' False ''Adam''))) =
        concat (map (\<lambda>(a, m0, m1, acc, m2).
                       [Reset m0, Load a None,
                        Accuracy m1 (TEST_BATCH_SIZE (toy_cfg ''tent'' False ''Adam'')) acc m2])
                  steps) \<and>
      list_all (\<lambda>(a, m0, m1, acc, m2).
                  m1 = (case model_reset (toy_torch True) m0 of None \<Rightarrow> m0 | Some m' \<Rightarrow> m'))
        steps) \<and>
   length (filter is_accuracy
     (snd (evaluate (toy_vision 3) (toy_torch True) (toy_cfg ''tent'' False ''Adam'')))) = 19 \<and>
   fst (evaluate (toy_vision 3) (toy_torch True) (toy_cfg ''other'' False ''Adam'')) \<noteq> Inr () \<and>
   filter is_accuracy
     (snd (evaluate (toy_vision 3) (toy_torch True) (toy_cfg ''other'' False ''Adam''))) = [] \<and>
   rewrite_keys (torch_load_net (toy_torch True)) = Inr [(''fc.weight'', 1), (''fc.bias'', 2)] \<and>
   load_state_dict (toy_torch True) (LeNet5 (toy_torch True))
     [(''fc.weight'', 1), (''fc.bias'', 2)] = Inr 0 \<and>
   MODEL_ADAPTATION (toy_cfg ''tent'' True ''Adam'') = ''tent'' \<and>
   OPTIM_METHOD (toy_cfg ''tent'' True ''Adam'') = ''Adam'' \<and>
   MNIST_test (toy_vision 3) \<noteq> [] \<and>
   fst (evaluate (toy_vision 3) (toy_torch True) (toy_cfg ''tent'' True ''Adam'')) = Inr ()"
proof -
  let ?V = "toy_vision 3" and ?T = "toy_torch True"
  let ?c1 = "toy_cfg ''tent'' True ''Adam''" and ?c2 = "toy_cfg ''tent'' False ''Adam''"
    and ?c3 = "toy_cfg ''other'' False ''Adam''"
  have h1: "MODEL_EVOLVE ?c1"
    by (simp add: toy_cfg_def)
  have h2: "\<not> MODEL_EVOLVE ?c2"
    by (simp add: toy_cfg_def)
  have h3: "fst (evaluate ?V ?T ?c2) = Inr ()"
    by code_simp
  have h4: "fst (evaluate ?V ?T ?c3) \<noteq> Inr ()"
    by code_simp
  note T1 = reset_iff_not_evolve[of ?c1 ?V ?T]
  note T2 = reset_iff_not_evolve[of ?c2 ?V ?T]
  note T3 = reset_iff_not_evolve[of ?c3 ?V ?T]
  note a = mp[OF conjunct1[OF T1] h1]
  note b = mp[OF conjunct1[OF conjunct2[OF T2]] conjI[OF h2 h3]]
  note c = mp[OF conjunct1[OF conjunct2[OF conjunct2[OF T2]]] h3]
  note d = mp[OF conjunct1[OF conjunct2[OF conjunct2[OF conjunct2[OF T3]]]] h4]
  have b1: "rewrite_keys (torch_load_net ?T) = Inr [(''fc.weight'', 1), (''fc.bias'', 2)]"
    by code_simp
  have b2: "load_state_dict ?T (LeNet5 ?T) [(''fc.weight'', 1), (''fc.bias'', 2)] = Inr 0"
    by code_simp
  have md: "MODEL_ADAPTATION ?c1 = ''tent''"
    by (simp add: toy_cfg_def)
  have mt: "OPTIM_METHOD ?c1 = ''Adam''"
    by (simp add: toy_cfg_def)
  have dt: "MNIST_test ?V \<noteq> []"
    by (simp add: toy_vision_def)
  have md': "MODEL_ADAPTATION ?c1 = ''source'' \<or> MODEL_ADAPTATION ?c1 = ''norm'' \<or>
     MODEL_ADAPTATION ?c1 = ''tent'' \<and>
     (OPTIM_METHOD ?c1 = ''Adam'' \<or> OPTIM_METHOD ?c1 = ''SGD'')"
    using md mt by simp
  note T1' = reset_iff_not_evolve[of ?c1 ?V ?T "[(''fc.weight'', 1), (''fc.bias'', 2)]" 0]
  note e = mp[OF conjunct2[OF conjunct2[OF conjunct2[OF conjunct2[OF T1']]]]
              conjI[OF b1 conjI[OF b2 conjI[OF md' dt]]]]
  show ?thesis
    by (rule conjI[OF h1 conjI[OF conjunct1[OF a] conjI[OF conjunct2[OF a]
          conjI[OF h2 conjI[OF h3 conjI[OF b conjI[OF c conjI[OF h4 conjI[OF d
          conjI[OF b1 conjI[OF b2 conjI[OF md conjI[OF mt conjI[OF dt e]]]]]]]]]]]]]])
qed


section \<open>A reset that raises\<close>

text \<open>
  Claim C5. When the checkpoint loads, the mode is one of the three known ones (with a
  known optimizer in tent mode) and the test split is not empty, the run returns
  normally whatever \<open>reset\<close> does: a reset that raises is never fatal. If moreover
  \<open>MODEL.EVOLVE\<close> is false and the wrapper does not support resetting (every call of
  \<open>reset\<close> raises), then apart from the setup lines the run consists, angle after angle,
  of the call of \<open>reset\<close> on the current state \<open>m\<close>, the warning, the load, the accuracy
  call on the same state \<open>m\<close> and the error line; and every accuracy call runs on the
  state the previous one left, so the sweep goes on with the accumulated state.
\<close>

theorem failed_reset_not_fatal:
  assumes "rewrite_keys (torch_load_net T) = Inr sd"
    and "load_state_dict T (LeNet5 T) sd = Inr base"
    and "MODEL_ADAPTATION c = ''source'' \<or> MODEL_ADAPTATION c = ''norm'' \<or>
         MODEL_ADAPTATION c = ''tent''"
    and "MODEL_ADAPTATION c = ''tent'' \<longrightarrow>
         OPTIM_METHOD c = ''Adam'' \<or> OPTIM_METHOD c = ''SGD''"
    and "MNIST_test V \<noteq> []"
  shows "fst (evaluate V T c) = Inr () \<and>
     (\<not> MODEL_EVOLVE c \<and> (\<forall>m. model_reset T m = None) \<longrightarrow>
        (\<exists>m0 steps.
           map fst steps =
             [0, 10, 20, 30, 40, 50, 60, 70, 80, 90, 100, 110, 120, 130, 140, 150, 160,
              170, 180] \<and>
           filter (\<lambda>e. \<not> is_setup_event e) (snd (evaluate V T c)) =
             concat (map (\<lambda>(a, m, acc, m').
                            [Reset m, Warning ''not resetting model'', Load a None,
                             Accuracy m (TEST_BATCH_SIZE c) acc m', Error_pct a (1 - acc)])
                       steps) \<and>
           threaded m0 (snd (evaluate V T c))))"
proof -
  have ok: "fst (evaluate V T c) = Inr ()"
    using assms by (rule evaluate_valid)
  have p: "\<exists>m0 steps.
           map fst steps =
             [0, 10, 20, 30, 40, 50, 60, 70, 80, 90, 100, 110, 120, 130, 140, 150, 160,
              170, 180] \<and>
           filter (\<lambda>e. \<not> is_setup_event e) (snd (evaluate V T c)) =
             concat (map (\<lambda>(a, m, acc, m').
                            [Reset m, Warning ''not resetting model'', Load a None,
                             Accuracy m (TEST_BATCH_SIZE c) acc m', Error_pct a (1 - acc)])
                       steps) \<and>
           threaded m0 (snd (evaluate V T c))"
    if h: "\<not> MODEL_EVOLVE c \<and> (\<forall>m. model_reset T m = None)"
  proof -
    from h have ne: "\<not> MODEL_EVOLVE c" and no: "\<forall>m. model_reset T m = None"
      by simp_all
    have same: "after_reset T c m = m" for m
      using no by (simp add: after_reset_def)
    from evaluate_completed[OF ok] obtain m0 es steps where
      fs: "map fst steps =
         [0, 10, 20, 30, 40, 50, 60, 70, 80, 90, 100, 110, 120, 130, 140, 150, 160, 170, 180]"
      and tr: "snd (evaluate V T c) =
                (Print ''==> Loading from checkpoint..'' # es) @
                         concat (map (step_events T c) steps)"
      and es: "\<forall>e\<in>set es. is_setup_event e \<and> \<not> is_reset_event e"
      and lk: "linked V T c m0 steps"
      by (elim exE conjE)
    let ?steps = "map (\<lambda>(a, m0, m1, acc, m2). (a, m1, acc, m2)) steps"
    have es': "\<forall>e\<in>set (Print ''==> Loading from checkpoint..'' # es).
                 is_setup_event e \<and> \<not> is_reset_event e"
      using es by simp
    have pre: "filter (\<lambda>e. \<not> is_setup_event e)
                 (Print ''==> Loading from checkpoint..'' # es) = []"
      using es' by (intro filter_none) blast
    have eq: "\<forall>s\<in>set steps. fst (snd (snd s)) = fst (snd s)"
    proof
      fix s
      assume s: "s \<in> set steps"
      obtain a m0' m1 acc m2 where t: "s = (a, m0', m1, acc, m2)"
        by (cases s)
      from linked_member[OF lk s[unfolded t]] have "m1 = after_reset T c m0'"
        by (rule conjunct1)
      then show "fst (snd (snd s)) = fst (snd s)"
        unfolding t same by simp
    qed
    have "concat (map (\<lambda>(a, m0, m1, acc, m2).
                  [Reset m0, Warning ''not resetting model'', Load a None,
                   Accuracy m1 (TEST_BATCH_SIZE c) acc m2, Error_pct a (1 - acc)]) steps) =
          concat (map (\<lambda>(a, m, acc, m').
                            [Reset m, Warning ''not resetting model'', Load a None,
                             Accuracy m (TEST_BATCH_SIZE c) acc m', Error_pct a (1 - acc)])
                       ?steps)"
      using eq by (rule failed_reset_blocks)
    then have b: "filter (\<lambda>e. \<not> is_setup_event e) (snd (evaluate V T c)) =
             concat (map (\<lambda>(a, m, acc, m').
                            [Reset m, Warning ''not resetting model'', Load a None,
                             Accuracy m (TEST_BATCH_SIZE c) acc m', Error_pct a (1 - acc)])
                       ?steps)"
      unfolding tr filter_append pre filter_failed_reset_steps[OF ne no] by simp
    have a: "map fst ?steps =
         [0, 10, 20, 30, 40, 50, 60, 70, 80, 90, 100, 110, 120, 130, 140, 150, 160, 170, 180]"
      unfolding map_fst_proj by (rule fs)
    have "threaded m0 (concat (map (step_events T c) steps))"
      using same lk by (rule linked_threaded)
    then have t: "threaded m0 (snd (evaluate V T c))"
      unfolding tr threaded_setup[OF es'] .
    show ?thesis
      by (rule exI[of _ m0], rule exI[of _ ?steps]) (intro conjI a b t)
  qed
  show ?thesis
    by (rule conjI[OF ok impI[OF p]])
qed

text \<open>
  The same on the small instance in source mode, where the wrapped model is the bare
  network and has no \<open>reset\<close>.
\<close>

theorem failed_reset_not_fatal_witness:
  "rewrite_keys (torch_load_net (toy_torch False)) = Inr [(''fc.weight'', 1), (''fc.bias'', 2)] \<and>
   load_state_dict (toy_torch False) (LeNet5 (toy_torch False))
     [(''fc.weight'', 1), (''fc.bias'', 2)] = Inr 0 \<and>
   MODEL_ADAPTATION (toy_cfg ''source'' False ''Adam'') = ''source'' \<and>
   MNIST_test (toy_vision 3) \<noteq> [] \<and>
   \<not> MODEL_EVOLVE (toy_cfg ''source'' False ''Adam'') \<and>
   (\<forall>m. model_reset (toy_torch False) m = None) \<and>
   fst (evaluate (toy_vision 3) (toy_torch False) (toy_cfg ''source'' False ''Adam'')) = Inr () \<and>
   (\<exists>m0 steps.
      map fst steps =
        [0, 10, 20, 30, 40, 50, 60, 70, 80, 90, 100, 110, 120, 130, 140, 150, 160,
         170, 180] \<and>
      filter (\<lambda>e. \<not> is_setup_event e)
        (snd (evaluate (toy_vision 3) (toy_torch False) (toy_cfg ''source'' False ''Adam''))) =
        concat (map (\<lambda>(a, m, acc, m').
                       [Reset m, Warning ''not resetting model'', Load a None,
                        Accuracy m (TEST_BATCH_SIZE (toy_cfg ''source'' False ''Adam'')) acc m',
                        Error_pct a (1 - acc)])
                  steps) \<and>
      threaded m0
        (snd (evaluate (toy_vision 3) (toy_torch False) (toy_cfg ''source'' False ''Adam''))))"
proof -
  let ?V = "toy_vision 3" and ?T = "toy_torch False" and ?c = "toy_cfg ''source'' False ''Adam''"
  have h1: "rewrite_keys (torch_load_net ?T) = Inr [(''fc.weight'', 1), (''fc.bias'', 2)]"
    by code_simp
  have h2: "load_state_dict ?T (LeNet5 ?T) [(''fc.weight'', 1), (''fc.bias'', 2)] = Inr 0"
    by code_simp
  have h3: "MODEL_ADAPTATION ?c = ''source''"
    by (simp add: toy_cfg_def)
  have h3': "MODEL_ADAPTATION ?c = ''source'' \<or> MODEL_ADAPTATION ?c = ''norm'' \<or>
         MODEL_ADAPTATION ?c = ''tent''"
    using h3 by simp
  have h4: "MODEL_ADAPTATION ?c = ''tent'' \<longrightarrow>
         OPTIM_METHOD ?c = ''Adam'' \<or> OPTIM_METHOD ?c = ''SGD''"
    by (simp add: toy_cfg_def)
  have h5: "MNIST_test ?V \<noteq> []"
    by (simp add: toy_vision_def)
  have h6: "\<not> MODEL_EVOLVE ?c"
    by (simp add: toy_cfg_def)
  have h7: "\<forall>m. model_reset ?T m = None"
    by (simp add: toy_torch_def)
  note T = failed_reset_not_fatal[OF h1 h2 h3' h4 h5]
  note p = mp[OF conjunct2[OF T] conjI[OF h6 h7]]
  show ?thesis
    by (rule conjI[OF h1 conjI[OF h2 conjI[OF h3 conjI[OF h5 conjI[OF h6 conjI[OF h7
          conjI[OF conjunct1[OF T] p]]]]]]])
qed


section \<open>An unknown adaptation mode\<close>

text \<open>
  Claim C10 says that with a mode outside the three known ones the run fails with an
  uncaught unbound-variable error at the first use of the wrapped model. With
  \<open>MODEL.EVOLVE\<close> false the first use is \<open>model.reset()\<close> inside the \<open>try\<close> block: the
  error it raises is caught by the bare \<open>except\<close> and logged as a warning, the test
  split is loaded, and only the second use, in the accuracy call, fails uncaught. And
  when the checkpoint does not load, the run fails with that error before the mode is
  looked at.
\<close>

theorem unbound_model_first_use_caught:
  "evaluate (toy_vision 3) (toy_torch True) (toy_cfg ''other'' False ''Adam'') =
     (Inl UnboundLocalError,
      [Print ''==> Loading from checkpoint..'', Warning ''not resetting model'',
       Load 0 None]) \<and>
   evaluate (toy_vision 3) ((toy_torch True)\<lparr>torch_load_net := [(''conv.weight'', 1)]\<rparr>)
     (toy_cfg ''other'' False ''Adam'') =
     (Inl RuntimeError, [Print ''==> Loading from checkpoint..''])"
  by code_simp

text \<open>
  Claim C10, amended. If the checkpoint loads, the test split is not empty and the
  configured mode is outside source, norm and tent, then no strategy is selected and no
  line about one is logged, and the run fails with an uncaught unbound-variable error in
  the iteration of angle 0, at the accuracy call, after the split was loaded and before
  any angle is evaluated. With \<open>MODEL.EVOLVE\<close> false the unbound-variable error of
  \<open>model.reset()\<close> was caught before that and logged as the warning.
\<close>

theorem unbound_model_fails_in_first_angle:
  assumes "rewrite_keys (torch_load_net T) = Inr sd"
    and "load_state_dict T (LeNet5 T) sd = Inr base"
    and "MODEL_ADAPTATION c \<noteq> ''source''"
    and "MODEL_ADAPTATION c \<noteq> ''norm''"
    and "MODEL_ADAPTATION c \<noteq> ''tent''"
    and "MNIST_test V \<noteq> []"
  shows "evaluate V T c =
     (Inl UnboundLocalError,
      [Print ''==> Loading from checkpoint..''] @
      (if MODEL_EVOLVE c then [] else [Warning ''not resetting model'']) @
      [Load 0 None])"
proof -
  have sel: "select_model T c base [Print ''==> Loading from checkpoint..''] =
               (Inr None, [Print ''==> Loading from checkpoint..''])"
    using assms(3,4,5) by (rule select_model_unbound)
  show ?thesis
    unfolding evaluate_boot[OF assms(1,2)] sel py_range_angles
    by (simp add: angle_step_unbound[OF assms(6)])
qed

text \<open>The same on the small instance with \<open>EVOLVE\<close> false.\<close>

theorem unbound_model_fails_in_first_angle_witness:
  "rewrite_keys (torch_load_net (toy_torch True)) = Inr [(''fc.weight'', 1), (''fc.bias'', 2)] \<and>
   load_state_dict (toy_torch True) (LeNet5 (toy_torch True))
     [(''fc.weight'', 1), (''fc.bias'', 2)] = Inr 0 \<and>
   MODEL_ADAPTATION (toy_cfg ''other'' False ''Adam'') \<noteq> ''source'' \<and>
   MODEL_ADAPTATION (toy_cfg ''other'' False ''Adam'') \<noteq> ''norm'' \<and>
   MODEL_ADAPTATION (toy_cfg ''other'' False ''Adam'') \<noteq> ''tent'' \<and>
   MNIST_test (toy_vision 3) \<noteq> [] \<and>
   evaluate (toy_vision 3) (toy_torch True) (toy_cfg ''other'' False ''Adam'') =
     (Inl UnboundLocalError,
      [Print ''==> Loading from checkpoint..''] @
      (if MODEL_EVOLVE (toy_cfg ''other'' False ''Adam'') then []
       else [Warning ''not resetting model'']) @
      [Load 0 None])"
proof -
  let ?V = "toy_vision 3" and ?T = "toy_torch True" and ?c = "toy_cfg ''other'' False ''Adam''"
  have h1: "rewrite_keys (torch_load_net ?T) = Inr [(''fc.weight'', 1), (''fc.bias'', 2)]"
    by code_simp
  have h2: "load_state_dict ?T (LeNet5 ?T) [(''fc.weight'', 1), (''fc.bias'', 2)] = Inr 0"
    by code_simp
  have h3: "MODEL_ADAPTATION ?c \<noteq> ''source''"
    by (simp add: toy_cfg_def)
  have h4: "MODEL_ADAPTATION ?c \<noteq> ''norm''"
    by (simp add: toy_cfg_def)
  have h5: "MODEL_ADAPTATION ?c \<noteq> ''tent''"
    by (simp add: toy_cfg_def)
  have h6: "MNIST_test ?V \<noteq> []"
    by (simp add: toy_vision_def)
  show ?thesis
    by (rule conjI[OF h1 conjI[OF h2 conjI[OF h3 conjI[OF h4 conjI[OF h5 conjI[OF h6
          unbound_model_fails_in_first_angle[OF h1 h2 h3 h4 h5 h6]]]]]]])
qed


section \<open>The optimizer\<close>

text \<open>
  Claim C6. For the method \<open>Adam\<close> the factory returns the Adam optimizer over the given
  parameters with the configured learning rate, the betas (configured beta, 0.999) and
  the configured weight decay; for \<open>SGD\<close> the SGD optimizer with the configured
  learning rate, momentum, dampening, weight decay and Nesterov flag; for every other
  method it raises \<open>NotImplementedError\<close>, there is no default. In tent mode with such a
  method the run raises before the sweep starts: no accuracy call is made, and when the
  checkpoint loads the run ends with \<open>NotImplementedError\<close> right after the line that
  announces the mode.
\<close>

theorem setup_optimizer_cases:
  "(OPTIM_METHOD c = ''Adam'' \<longrightarrow>
      setup_optimizer c params =
        Inr (Adam params (OPTIM_LR c) (OPTIM_BETA c, 999 / 1000) (OPTIM_WD c))) \<and>
   (OPTIM_METHOD c = ''SGD'' \<longrightarrow>
      setup_optimizer c params =
        Inr (SGD params (OPTIM_LR c) (OPTIM_MOMENTUM c) (OPTIM_DAMPENING c) (OPTIM_WD c)
               (OPTIM_NESTEROV c))) \<and>
   (OPTIM_METHOD c \<noteq> ''Adam'' \<and> OPTIM_METHOD c \<noteq> ''SGD'' \<longrightarrow>
      setup_optimizer c params = Inl NotImplementedError \<and>
      (MODEL_ADAPTATION c = ''tent'' \<longrightarrow>
         fst (evaluate V T c) \<noteq> Inr () \<and>
         filter is_accuracy (snd (evaluate V T c)) = [] \<and>
         (\<forall>sd base.
            rewrite_keys (torch_load_net T) = Inr sd \<and>
            load_state_dict T (LeNet5 T) sd = Inr base \<longrightarrow>
            evaluate V T c =
              (Inl NotImplementedError,
               [Print ''==> Loading from checkpoint..'',
                Info ''test-time adaptation: TENT'']))))"
proof -
  have a: "setup_optimizer c params =
        Inr (Adam params (OPTIM_LR c) (OPTIM_BETA c, 999 / 1000) (OPTIM_WD c))"
    if "OPTIM_METHOD c = ''Adam''"
    using that by (simp add: setup_optimizer_def)
  have s: "setup_optimizer c params =
        Inr (SGD params (OPTIM_LR c) (OPTIM_MOMENTUM c) (OPTIM_DAMPENING c) (OPTIM_WD c)
               (OPTIM_NESTEROV c))"
    if "OPTIM_METHOD c = ''SGD''"
    using that by (simp add: setup_optimizer_def)
  have o: "setup_optimizer c params = Inl NotImplementedError \<and>
      (MODEL_ADAPTATION c = ''tent'' \<longrightarrow>
         fst (evaluate V T c) \<noteq> Inr () \<and>
         filter is_accuracy (snd (evaluate V T c)) = [] \<and>
         (\<forall>sd base.
            rewrite_keys (torch_load_net T) = Inr sd \<and>
            load_state_dict T (LeNet5 T) sd = Inr base \<longrightarrow>
            evaluate V T c =
              (Inl NotImplementedError,
               [Print ''==> Loading from checkpoint..'',
                Info ''test-time adaptation: TENT''])))"
    if h: "OPTIM_METHOD c \<noteq> ''Adam'' \<and> OPTIM_METHOD c \<noteq> ''SGD''"
  proof -
    from h have na: "OPTIM_METHOD c \<noteq> ''Adam''" and ns: "OPTIM_METHOD c \<noteq> ''SGD''"
      by simp_all
    have r: "setup_optimizer c params = Inl NotImplementedError"
      using na ns by (simp add: setup_optimizer_def)
    have t: "fst (evaluate V T c) \<noteq> Inr () \<and>
         filter is_accuracy (snd (evaluate V T c)) = [] \<and>
         (\<forall>sd base.
            rewrite_keys (torch_load_net T) = Inr sd \<and>
            load_state_dict T (LeNet5 T) sd = Inr base \<longrightarrow>
            evaluate V T c =
              (Inl NotImplementedError,
               [Print ''==> Loading from checkpoint..'',
                Info ''test-time adaptation: TENT'']))"
      if tent: "MODEL_ADAPTATION c = ''tent''"
    proof -
      have ex: "evaluate V T c =
              (Inl NotImplementedError,
               [Print ''==> Loading from checkpoint..'',
                Info ''test-time adaptation: TENT''])"
        if b: "rewrite_keys (torch_load_net T) = Inr sd \<and>
               load_state_dict T (LeNet5 T) sd = Inr base" for sd base
      proof -
        from b have b1: "rewrite_keys (torch_load_net T) = Inr sd"
          and b2: "load_state_dict T (LeNet5 T) sd = Inr base"
          by simp_all
        show ?thesis
          unfolding evaluate_boot[OF b1 b2] select_model_tent_raise[OF tent na ns] by simp
      qed
      have bad: "fst (evaluate V T c) \<noteq> Inr ()"
      proof (cases "rewrite_keys (torch_load_net T)")
        case (Inl e)
        then show ?thesis by (simp add: evaluate_def)
      next
        case (Inr sd)
        show ?thesis
        proof (cases "load_state_dict T (LeNet5 T) sd")
          case (Inl e)
          with Inr show ?thesis by (simp add: evaluate_def)
        next
          case base: (Inr base)
          show ?thesis
            unfolding ex[OF conjI[OF Inr base]] by simp
        qed
      qed
      have none: "filter is_accuracy (snd (evaluate V T c)) = []"
      proof -
        from evaluate_aborted[OF bad] obtain es tail where
          tr: "snd (evaluate V T c) = (Print ''==> Loading from checkpoint..'' # es) @ tail"
          and es: "\<forall>e\<in>set es. is_setup_event e \<and> \<not> is_reset_event e"
          and t1: "\<forall>e\<in>set tail. \<not> is_accuracy e"
          by (elim exE conjE)
        have "\<forall>e\<in>set (snd (evaluate V T c)). \<not> is_accuracy e"
          unfolding tr using es t1 by (auto dest: setup_not_accuracy)
        then show ?thesis
          by (rule filter_none)
      qed
      have all: "\<forall>sd base.
            rewrite_keys (torch_load_net T) = Inr sd \<and>
            load_state_dict T (LeNet5 T) sd = Inr base \<longrightarrow>
            evaluate V T c =
              (Inl NotImplementedError,
               [Print ''==> Loading from checkpoint..'',
                Info ''test-time adaptation: TENT''])"
        by (intro allI impI) (rule ex)
      show ?thesis
        by (rule conjI[OF bad conjI[OF none all]])
    qed
    show ?thesis
      by (rule conjI[OF r impI[OF t]])
  qed
  show ?thesis
    by (rule conjI[OF impI[OF a] conjI[OF impI[OF s] impI[OF o]]])
qed

text \<open>
  The same at three configurations of the small instance: \<open>Adam\<close>, \<open>SGD\<close>, and
  \<open>RMSprop\<close> in tent mode.
\<close>

theorem setup_optimizer_cases_witness:
  "OPTIM_METHOD (toy_cfg ''tent'' False ''Adam'') = ''Adam'' \<and>
   setup_optimizer (toy_cfg ''tent'' False ''Adam'') [''bn.weight''] =
     Inr (Adam [''bn.weight''] (OPTIM_LR (toy_cfg ''tent'' False ''Adam''))
            (OPTIM_BETA (toy_cfg ''tent'' False ''Adam''), 999 / 1000)
            (OPTIM_WD (toy_cfg ''tent'' False ''Adam''))) \<and>
   OPTIM_METHOD (toy_cfg ''tent'' False ''SGD'') = ''SGD'' \<and>
   setup_optimizer (toy_cfg ''tent'' False ''SGD'') [''bn.weight''] =
     Inr (SGD [''bn.weight''] (OPTIM_LR (toy_cfg ''tent'' False ''SGD''))
            (OPTIM_MOMENTUM (toy_cfg ''tent'' False ''SGD''))
            (OPTIM_DAMPENING (toy_cfg ''tent'' False ''SGD''))
            (OPTIM_WD (toy_cfg ''tent'' False ''SGD''))
            (OPTIM_NESTEROV (toy_cfg ''tent'' False ''SGD''))) \<and>
   OPTIM_METHOD (toy_cfg ''tent'' False ''RMSprop'') \<noteq> ''Adam'' \<and>
   OPTIM_METHOD (toy_cfg ''tent'' False ''RMSprop'') \<noteq> ''SGD'' \<and>
   MODEL_ADAPTATION (toy_cfg ''tent'' False ''RMSprop'') = ''tent'' \<and>
   rewrite_keys (torch_load_net (toy_torch True)) = Inr [(''fc.weight'', 1), (''fc.bias'', 2)] \<and>
   load_state_dict (toy_torch True) (LeNet5 (toy_torch True))
     [(''fc.weight'', 1), (''fc.bias'', 2)] = Inr 0 \<and>
   setup_optimizer (toy_cfg ''tent'' False ''RMSprop'') [''bn.weight''] =
     Inl NotImplementedError \<and>
   fst (evaluate (toy_vision 3) (toy_torch True) (toy_cfg ''tent'' False ''RMSprop'')) \<noteq>
     Inr () \<and>
   filter is_accuracy
     (snd (evaluate (toy_vision 3) (toy_torch True) (toy_cfg ''tent'' False ''RMSprop''))) =
     [] \<and>
   evaluate (toy_vision 3) (toy_torch True) (toy_cfg ''tent'' False ''RMSprop'') =
     (Inl NotImplementedError,
      [Print ''==> Loading from checkpoint..'', Info ''test-time adaptation: TENT''])"
proof -
  let ?V = "toy_vision 3" and ?T = "toy_torch True"
  let ?a = "toy_cfg ''tent'' False ''Adam''" and ?s = "toy_cfg ''tent'' False ''SGD''"
    and ?r = "toy_cfg ''tent'' False ''RMSprop''"
  have ha: "OPTIM_METHOD ?a = ''Adam''"
    by (simp add: toy_cfg_def)
  have hs: "OPTIM_METHOD ?s = ''SGD''"
    by (simp add: toy_cfg_def)
  have hr1: "OPTIM_METHOD ?r \<noteq> ''Adam''"
    by (simp add: toy_cfg_def)
  have hr2: "OPTIM_METHOD ?r \<noteq> ''SGD''"
    by (simp add: toy_cfg_def)
  have ht: "MODEL_ADAPTATION ?r = ''tent''"
    by (simp add: toy_cfg_def)
  have h1: "rewrite_keys (torch_load_net ?T) = Inr [(''fc.weight'', 1), (''fc.bias'', 2)]"
    by code_simp
  have h2: "load_state_dict ?T (LeNet5 ?T) [(''fc.weight'', 1), (''fc.bias'', 2)] = Inr 0"
    by code_simp
  note A = mp[OF conjunct1[OF setup_optimizer_cases[of ?a "[''bn.weight'']" ?V ?T]] ha]
  note S = mp[OF conjunct1[OF conjunct2[OF setup_optimizer_cases[of ?s "[''bn.weight'']" ?V ?T]]]
              hs]
  note R = mp[OF conjunct2[OF conjunct2[OF setup_optimizer_cases[of ?r "[''bn.weight'']" ?V ?T]]]
              conjI[OF hr1 hr2]]
  note E = mp[OF conjunct2[OF R] ht]
  note X = mp[OF spec[OF spec[OF conjunct2[OF conjunct2[OF E]]]] conjI[OF h1 h2]]
  show ?thesis
    by (rule conjI[OF ha conjI[OF A conjI[OF hs conjI[OF S conjI[OF hr1 conjI[OF hr2
          conjI[OF ht conjI[OF h1 conjI[OF h2 conjI[OF conjunct1[OF R]
          conjI[OF conjunct1[OF E] conjI[OF conjunct1[OF conjunct2[OF E]] X]]]]]]]]]]]])
qed


end
